theory Spec2Isabelle
  imports Main
begin

section \<open>The effect dispatch engine of \<^verbatim>\<open>effect/__init__.py\<close>\<close>

subsection \<open>Python values\<close>

text \<open>
  A Python callable supplied by the application (a handler of the table, a
  \<^verbatim>\<open>perform_effect\<close> method of an intent class, a success or error callback) is a
  function object. It is modelled by its identity, a number; what it does when it is called
  is given by an environment, see \<open>env\<close> below.
\<close>

type_synonym fid = nat

text \<open>The interpreter decides what \<^verbatim>\<open>raise\<close> does with a tuple, see \<open>reraise\<close>.\<close>

datatype pyver = Py2 | Py3

text \<open>The runtime type of a value, \<^verbatim>\<open>type(v)\<close>: the key of the handler table.\<close>

datatype pytype =
    NoneType | IntType | StrType | ListType | TupleType | DictType
  | EffectType | ParallelEffectsType | DeferredType
  | ClassType string

text \<open>
  The handler table: a \<^verbatim>\<open>dict\<close> from the type of an intent to a handler function,
  given by the list of its items; \<open>map_of\<close> looks a key up.
\<close>

type_synonym handlers = "(pytype \<times> fid) list"

text \<open>A continuation pair \<^verbatim>\<open>(success, error)\<close>; \<^verbatim>\<open>None\<close> is an absent side.\<close>

type_synonym cbpair = "fid option \<times> fid option"

text \<open>
  The engine does two things with a Twisted \<^verbatim>\<open>Deferred\<close>: it calls
  \<^verbatim>\<open>addCallback(self._maybe_chain, handlers)\<close> and
  \<^verbatim>\<open>addCallbacks(cb, eb)\<close>. Both return the Deferred itself. The model of a
  Deferred records these calls in the order they were made; what the Deferred does with the
  functions attached to it (when it fires, in which thread) belongs to Twisted and is outside
  the model. In particular the model never runs an attached function: that is what Twisted
  does for a Deferred that has not fired (the source \<open>Unfired\<close> below), while to a
  Deferred that has already fired Twisted runs what is attached at once, so what the model
  says of the calls made after an attachment is what the code does for a Deferred that has
  not fired. The success slot of \<^verbatim>\<open>addCallbacks\<close> holds a callback of the
  application or the \<^verbatim>\<open>lambda r: r\<close> of \<^verbatim>\<open>_chain_deferred\<close>.
\<close>

datatype success_slot = Identity | Success fid

datatype attached =
    AddCallback_maybe_chain handlers
  | AddCallbacks success_slot "fid option"

text \<open>
  Values. \<open>VInstance c m fs\<close> is an instance of the application's class \<open>c\<close> with
  public fields \<open>fs\<close>; \<open>m\<close> is its \<^verbatim>\<open>perform_effect\<close> attribute, if it has one.
  \<open>VExcInfo e\<close> is the triple \<^verbatim>\<open>sys.exc_info()\<close> taken while \<open>e\<close> is being
  handled. \<open>VDeferred d att\<close> is a Deferred made by \<open>d\<close> with the calls \<open>att\<close>
  attached so far.
\<close>

datatype val =
    VNone
  | VInt int
  | VStr string
  | VList "val list"
  | VInstance string "fid option" "val list"
  | VDict handlers
  | VExcInfo exc
  | VEffect effect
  | VParallelEffects "effect list"
  | VDeferred dsource "attached list"
and exc =
    NoEffectHandlerError val
  | TypeError
  | Error string val
and effect =
    Effect_obj (intent: val) (callbacks: "cbpair list")
and dsource =
    Unfired nat
  | Succeed val
  | Fail exc
  | GatherResults "val list"

fun type_of :: "val \<Rightarrow> pytype" where
  "type_of VNone = NoneType"
| "type_of (VInt _) = IntType"
| "type_of (VStr _) = StrType"
| "type_of (VList _) = ListType"
| "type_of (VInstance c _ _) = ClassType c"
| "type_of (VDict _) = DictType"
| "type_of (VExcInfo _) = TupleType"
| "type_of (VEffect _) = EffectType"
| "type_of (VParallelEffects _) = ParallelEffectsType"
| "type_of (VDeferred _ _) = DeferredType"


subsection \<open>Constructing effects\<close>

text \<open>\<^verbatim>\<open>Effect.__init__\<close>, \<^verbatim>\<open>Effect.with_callbacks\<close> and the combinators.\<close>

definition Effect :: "val \<Rightarrow> effect" where
  "Effect i = Effect_obj i []"

definition with_callbacks :: "val \<Rightarrow> cbpair list \<Rightarrow> effect" where
  "with_callbacks i cbs = (case Effect i of Effect_obj j _ \<Rightarrow> Effect_obj j cbs)"

definition on :: "effect \<Rightarrow> fid option \<Rightarrow> fid option \<Rightarrow> effect" where
  "on self success error = with_callbacks (intent self) (callbacks self @ [(success, error)])"

definition on_success :: "effect \<Rightarrow> fid option \<Rightarrow> effect" where
  "on_success self callback = on self callback None"

definition on_error :: "effect \<Rightarrow> fid option \<Rightarrow> effect" where
  "on_error self callback = on self None callback"

definition after :: "effect \<Rightarrow> fid option \<Rightarrow> effect" where
  "after self callback = on self callback callback"

definition parallel :: "effect list \<Rightarrow> effect" where
  "parallel effects = Effect (VParallelEffects effects)"

subsection \<open>Calling the application's functions\<close>

text \<open>
  The environment gives, for every function object, what a call with a list of positional
  arguments does: it returns a value or raises, and it may change the world (the state the
  handlers act on). A call with the wrong number of arguments raises \<^verbatim>\<open>TypeError\<close>,
  as Python does; that is part of the function's entry in the environment.
  The state of a run is the world and the log of the calls made so far, oldest first: the
  function, its arguments, and what the call did.
\<close>

type_synonym 'w env = "fid \<Rightarrow> val list \<Rightarrow> 'w \<Rightarrow> (exc + val) \<times> 'w"

record 'w state =
  world :: 'w
  calls :: "(fid \<times> val list \<times> (exc + val)) list"

definition invoke :: "'w env \<Rightarrow> fid \<Rightarrow> val list \<Rightarrow> 'w state \<Rightarrow> (exc + val) \<times> 'w state" where
  "invoke env f args s =
     (case env f args (world s) of
        (r, w) \<Rightarrow> (r, \<lparr>world = w, calls = calls s @ [(f, args, r)]\<rparr>))"

text \<open>
  The callables the chain walk meets: a callback \<open>f\<close>; \<^verbatim>\<open>partial(f, x)\<close>; the bound
  method \<^verbatim>\<open>x.perform_effect\<close> of an instance whose class defines it as \<open>f\<close>; and the
  bound method \<^verbatim>\<open>perform_effect\<close> of a \<^verbatim>\<open>ParallelEffects\<close>.
\<close>

datatype callable =
    Function fid
  | Partial fid val
  | Method fid val
  | ParallelEffects_perform_effect "effect list"

text \<open>\<^verbatim>\<open>getattr(intent, 'perform_effect', None)\<close>\<close>

fun getattr_perform_effect :: "val \<Rightarrow> callable option" where
  "getattr_perform_effect (VInstance c (Some m) fs) = Some (Method m (VInstance c (Some m) fs))"
| "getattr_perform_effect (VParallelEffects es) = Some (ParallelEffects_perform_effect es)"
| "getattr_perform_effect _ = None"

text \<open>
  The first lines of \<^verbatim>\<open>Effect.perform\<close>: the table entry for the type of the intent if
  there is one, else the intent's own \<^verbatim>\<open>perform_effect\<close>, else nothing.
\<close>

definition resolve_handler :: "handlers \<Rightarrow> val \<Rightarrow> callable option" where
  "resolve_handler h i =
     (case map_of h (type_of i) of
        Some f \<Rightarrow> Some (Partial f i)
      | None \<Rightarrow> getattr_perform_effect i)"

text \<open>
  \<^verbatim>\<open>raise result[1:]\<close>. When the walk ends in error, \<open>result\<close> is the triple of
  \<^verbatim>\<open>sys.exc_info()\<close> and the slice is the pair of the exception and its traceback.
  Python 2 replaces a tuple given to \<^verbatim>\<open>raise\<close> by its first item, so it raises the
  exception; Python 3 raises \<^verbatim>\<open>TypeError\<close>, a tuple being no exception. The
  version is a parameter of the model. A result that is no triple cannot be raised in either.
\<close>

fun reraise :: "pyver \<Rightarrow> val \<Rightarrow> exc" where
  "reraise Py2 (VExcInfo e) = e"
| "reraise _ _ = TypeError"

text \<open>\<^verbatim>\<open>Effect._chain_deferred\<close>, on a Deferred \<open>d\<close> with \<open>att\<close> attached.\<close>

fun chain_deferred :: "dsource \<Rightarrow> attached list \<Rightarrow> cbpair list \<Rightarrow> val" where
  "chain_deferred d att [] = VDeferred d att"
| "chain_deferred d att ((cb, eb) # cbs) =
     chain_deferred d
       (att @ [AddCallbacks (case cb of None \<Rightarrow> Identity | Some f \<Rightarrow> Success f) eb])
       cbs"

text \<open>
  Twisted's \<^verbatim>\<open>maybeDeferred(f, *args)\<close>, given what the call of \<open>f\<close> did: a raised
  exception becomes a failed Deferred, a Deferred is returned as it is, another value becomes
  a Deferred that has succeeded with it.
\<close>

fun maybeDeferred :: "exc + val \<Rightarrow> val" where
  "maybeDeferred (Inl e) = VDeferred (Fail e) []"
| "maybeDeferred (Inr (VDeferred d att)) = VDeferred d att"
| "maybeDeferred (Inr v) = VDeferred (Succeed v) []"

subsection \<open>The chain walk\<close>

text \<open>
  How the \<^verbatim>\<open>for\<close> loop of \<^verbatim>\<open>_dispatch_callback_chain\<close> is left: it runs to its
  end with the flag \<^verbatim>\<open>is_error\<close> and the \<^verbatim>\<open>result\<close>; or it returns a Deferred from
  inside; or an exception leaves it (only \<^verbatim>\<open>_maybe_chain\<close> can raise there, the call
  of the callback is inside \<^verbatim>\<open>try\<close>).
\<close>

datatype loop_exit = Completed bool val | Returned val | Propagated exc

type_synonym step = "callable option \<times> callable option"

definition step_of :: "cbpair \<Rightarrow> step" where
  "step_of p = (map_option Function (fst p), map_option Function (snd p))"

text \<open>
  \<^verbatim>\<open>perform\<close> of an effect may perform the effects its handlers and callbacks return, and
  these may return effects again, without end. The first argument bounds the depth of nested
  performs; \<open>None\<close> says that the bound was reached, an exception is \<open>Inl\<close>, a returned
  value \<open>Inr\<close>. \<open>dispatch_loop\<close> is the \<^verbatim>\<open>for\<close> loop at \<^verbatim>\<open>callback_index\<close>
  \<open>idx\<close> with the steps still to do; \<open>perform_children\<close> is the list comprehension of
  \<^verbatim>\<open>ParallelEffects.perform_effect\<close>. The engine calls \<^verbatim>\<open>perform_effect\<close> with the
  handler table and nothing else; for an argument that is no \<^verbatim>\<open>dict\<close> the model answers
  \<^verbatim>\<open>TypeError\<close>. \<^verbatim>\<open>gatherResults\<close> is Twisted's: the Deferred it returns is the
  source \<open>GatherResults\<close> of the Deferreds it was given.
\<close>

function perform :: "nat \<Rightarrow> pyver \<Rightarrow> 'w env \<Rightarrow> effect \<Rightarrow> handlers \<Rightarrow> 'w state
      \<Rightarrow> ((exc + val) \<times> 'w state) option"
and dispatch_callback_chain :: "nat \<Rightarrow> pyver \<Rightarrow> 'w env \<Rightarrow> cbpair list \<Rightarrow> callable \<Rightarrow> handlers
      \<Rightarrow> 'w state \<Rightarrow> ((exc + val) \<times> 'w state) option"
and dispatch_loop :: "nat \<Rightarrow> pyver \<Rightarrow> 'w env \<Rightarrow> cbpair list \<Rightarrow> handlers \<Rightarrow> nat \<Rightarrow> step list
      \<Rightarrow> bool \<Rightarrow> val \<Rightarrow> 'w state \<Rightarrow> (loop_exit \<times> 'w state) option"
and dispatch_callback :: "nat \<Rightarrow> pyver \<Rightarrow> 'w env \<Rightarrow> callable \<Rightarrow> val \<Rightarrow> 'w state
      \<Rightarrow> ((bool \<times> val) \<times> 'w state) option"
and call :: "nat \<Rightarrow> pyver \<Rightarrow> 'w env \<Rightarrow> callable \<Rightarrow> val \<Rightarrow> 'w state
      \<Rightarrow> ((exc + val) \<times> 'w state) option"
and perform_children :: "nat \<Rightarrow> pyver \<Rightarrow> 'w env \<Rightarrow> effect list \<Rightarrow> handlers \<Rightarrow> 'w state
      \<Rightarrow> (val list \<times> 'w state) option"
and maybe_chain :: "nat \<Rightarrow> pyver \<Rightarrow> 'w env \<Rightarrow> val \<Rightarrow> handlers \<Rightarrow> 'w state
      \<Rightarrow> ((exc + val) \<times> 'w state) option"
where
  "perform n ver env e h s =
     (case resolve_handler h (intent e) of
        None \<Rightarrow> Some (Inl (NoEffectHandlerError (intent e)), s)
      | Some func \<Rightarrow>
          (case n of
             0 \<Rightarrow> None
           | Suc m \<Rightarrow> dispatch_callback_chain m ver env (callbacks e) func h s))"
| "dispatch_callback_chain n ver env cbs init_func h s =
     (case dispatch_loop n ver env cbs h 0 ((Some init_func, None) # map step_of cbs)
             False (VDict h) s of
        None \<Rightarrow> None
      | Some (Completed is_error result, s1) \<Rightarrow>
          Some (if is_error then Inl (reraise ver result) else Inr result, s1)
      | Some (Returned d, s1) \<Rightarrow> Some (Inr d, s1)
      | Some (Propagated x, s1) \<Rightarrow> Some (Inl x, s1))"
| "dispatch_loop n ver env cbs h idx [] is_error result s =
     Some (Completed is_error result, s)"
| "dispatch_loop n ver env cbs h idx ((success, error) # steps) is_error result s =
     (case (if \<not> is_error then success else error) of
        None \<Rightarrow> dispatch_loop n ver env cbs h (Suc idx) steps is_error result s
      | Some cb \<Rightarrow>
          (case dispatch_callback n ver env cb result s of
             None \<Rightarrow> None
           | Some ((is_error1, result1), s1) \<Rightarrow>
               (case maybe_chain n ver env result1 h s1 of
                  None \<Rightarrow> None
                | Some (Inl x, s2) \<Rightarrow> Some (Propagated x, s2)
                | Some (Inr (VDeferred d att), s2) \<Rightarrow>
                    Some (Returned (chain_deferred d att (drop idx cbs)), s2)
                | Some (Inr result2, s2) \<Rightarrow>
                    dispatch_loop n ver env cbs h (Suc idx) steps is_error1 result2 s2)))"
| "dispatch_callback n ver env cb argument s =
     (case call n ver env cb argument s of
        None \<Rightarrow> None
      | Some (Inr v, s1) \<Rightarrow> Some ((False, v), s1)
      | Some (Inl e, s1) \<Rightarrow> Some ((True, VExcInfo e), s1))"
| "call n ver env (Function f) a s = Some (invoke env f [a] s)"
| "call n ver env (Partial f x) a s = Some (invoke env f [x, a] s)"
| "call n ver env (Method f self) a s = Some (invoke env f [self, a] s)"
| "call n ver env (ParallelEffects_perform_effect es) a s =
     (case a of
        VDict h \<Rightarrow>
          (case perform_children n ver env es h s of
             None \<Rightarrow> None
           | Some (ds, s1) \<Rightarrow> Some (Inr (VDeferred (GatherResults ds) []), s1))
      | _ \<Rightarrow> Some (Inl TypeError, s))"
| "perform_children n ver env [] h s = Some ([], s)"
| "perform_children n ver env (e # es) h s =
     (case perform n ver env e h s of
        None \<Rightarrow> None
      | Some (r, s1) \<Rightarrow>
          (case perform_children n ver env es h s1 of
             None \<Rightarrow> None
           | Some (ds, s2) \<Rightarrow> Some (maybeDeferred r # ds, s2)))"
| "maybe_chain n ver env result h s =
     (case result of
        VDeferred d att \<Rightarrow> Some (Inr (VDeferred d (att @ [AddCallback_maybe_chain h])), s)
      | VEffect e \<Rightarrow> perform n ver env e h s
      | _ \<Rightarrow> Some (Inr result, s))"
  by pat_completeness auto

text \<open>
  Every nested perform has a smaller bound; within one bound the functions call each other
  downwards in the order chain, loop, callback, call, children, maybe-chain, perform, and the
  two loops shorten their lists.
\<close>

termination
  by (relation "inv_image (less_than <*lex*> less_than <*lex*> less_than)
        (\<lambda>x. case x of
           Inl (Inl (n, _)) \<Rightarrow> (n, 0::nat, 0::nat)
         | Inl (Inr (Inl (n, _))) \<Rightarrow> (n, 6, 0)
         | Inl (Inr (Inr (n, ver, env, cbs, h, idx, steps, _))) \<Rightarrow> (n, 5, length steps)
         | Inr (Inl (Inl (n, _))) \<Rightarrow> (n, 4, 0)
         | Inr (Inl (Inr (n, _))) \<Rightarrow> (n, 3, 0)
         | Inr (Inr (Inl (n, ver, env, es, _))) \<Rightarrow> (n, 2, length es)
         | Inr (Inr (Inr (n, _))) \<Rightarrow> (n, 1, 0))")
     auto

subsection \<open>Notions used in the statements\<close>

text \<open>What \<^verbatim>\<open>_chain_deferred\<close> attaches for one continuation pair.\<close>

definition attach_of :: "cbpair \<Rightarrow> attached" where
  "attach_of p = AddCallbacks (case fst p of None \<Rightarrow> Identity | Some f \<Rightarrow> Success f) (snd p)"

text \<open>A value that is neither an \<^verbatim>\<open>Effect\<close> nor a Deferred.\<close>

fun plain :: "val \<Rightarrow> bool" where
  "plain (VEffect _) = False"
| "plain (VDeferred _ _) = False"
| "plain _ = True"


text \<open>The log of \<open>s1\<close> continues the log of \<open>s\<close>.\<close>

definition extends :: "'w state \<Rightarrow> 'w state \<Rightarrow> bool" where
  "extends s s1 = (\<exists>ev. calls s1 = calls s @ ev)"

definition perform_extends_at :: "nat \<Rightarrow> pyver \<Rightarrow> 'w env \<Rightarrow> bool" where
  "perform_extends_at n ver env =
     (\<forall>e h s r s1. perform n ver env e h s = Some (r, s1) \<longrightarrow> extends s s1)"

text \<open>The success sides that are present, in the order of the pairs.\<close>

definition success_sides :: "cbpair list \<Rightarrow> fid list" where
  "success_sides ps = List.map_filter fst ps"

text \<open>
  \<open>chained v cs out\<close>: in the logged calls \<open>cs\<close> every call has one argument, the value
  the call before it returned, and the first has \<open>v\<close>; every call returns normally, and
  \<open>out\<close> is what the last one returned (\<open>v\<close> if there is no call).
\<close>

fun chained :: "val \<Rightarrow> (fid \<times> val list \<times> (exc + val)) list \<Rightarrow> val \<Rightarrow> bool" where
  "chained v [] out = (out = v)"
| "chained v ((f, args, r) # cs) out =
     (args = [v] \<and> (case r of Inr v1 \<Rightarrow> chained v1 cs out | Inl _ \<Rightarrow> False))"

text \<open>
  The success callbacks \<open>fs\<close> called one after the other, outside any walk: the first
  with \<open>v\<close>, each of the others with what the one before it returned. The result is the
  value the last one returned and the state after it; \<open>None\<close> when one of these calls
  raises or returns an effect or a Deferred. Only these calls are made, so the other
  arguments and states a function could be called with do not matter.
\<close>

fun success_run :: "'w env \<Rightarrow> fid list \<Rightarrow> val \<Rightarrow> 'w state \<Rightarrow> (val \<times> 'w state) option" where
  "success_run env [] v s = Some (v, s)"
| "success_run env (f # fs) v s =
     (case invoke env f [v] s of
        (Inr v1, s1) \<Rightarrow> if plain v1 then success_run env fs v1 s1 else None
      | (Inl _, _) \<Rightarrow> None)"


subsection \<open>Effects as objects\<close>

text \<open>
  The functions above treat an \<^verbatim>\<open>Effect\<close> as a value. In Python it is an object with two
  attributes, \<^verbatim>\<open>intent\<close> and \<^verbatim>\<open>callbacks\<close>, the second a reference to a list object,
  and both objects could be changed in place. To state that the combinators change neither,
  they are modelled a second time over a store of objects: \<open>effect_objs\<close> gives the two
  attributes of each \<^verbatim>\<open>Effect\<close> object, \<open>list_objs\<close> the contents of each list object,
  and \<open>next_ref\<close> is the next unused reference.
\<close>

record store =
  effect_objs :: "nat \<rightharpoonup> val \<times> nat"
  list_objs :: "nat \<rightharpoonup> cbpair list"
  next_ref :: nat

text \<open>A list display or a list concatenation: a new list object.\<close>

definition new_list :: "cbpair list \<Rightarrow> store \<Rightarrow> nat \<times> store" where
  "new_list xs st =
     (next_ref st,
      st\<lparr>list_objs := (list_objs st)(next_ref st \<mapsto> xs), next_ref := Suc (next_ref st)\<rparr>)"

text \<open>\<^verbatim>\<open>Effect(intent)\<close>: a new object with \<^verbatim>\<open>self.intent = intent; self.callbacks = []\<close>.\<close>

definition Effect_init :: "val \<Rightarrow> store \<Rightarrow> nat \<times> store" where
  "Effect_init i st =
     (case new_list [] st of
        (l, st1) \<Rightarrow>
          (next_ref st1,
           st1\<lparr>effect_objs := (effect_objs st1)(next_ref st1 \<mapsto> (i, l)),
               next_ref := Suc (next_ref st1)\<rparr>))"

text \<open>\<^verbatim>\<open>eff = klass(intent); eff.callbacks = callbacks; return eff\<close>\<close>

definition with_callbacks_st :: "val \<Rightarrow> nat \<Rightarrow> store \<Rightarrow> nat \<times> store" where
  "with_callbacks_st i l st =
     (case Effect_init i st of
        (eff, st1) \<Rightarrow>
          (eff,
           st1\<lparr>effect_objs :=
                 (effect_objs st1)(eff := map_option (\<lambda>(j, _). (j, l)) (effect_objs st1 eff))\<rparr>))"

text \<open>
  \<^verbatim>\<open>Effect.with_callbacks(self.intent, self.callbacks + [(success, error)])\<close>; \<open>None\<close>
  when \<open>self\<close> is no \<^verbatim>\<open>Effect\<close> object of the store.
\<close>

definition on_st :: "nat \<Rightarrow> fid option \<Rightarrow> fid option \<Rightarrow> store \<Rightarrow> (nat \<times> store) option" where
  "on_st self success error st =
     (case effect_objs st self of
        None \<Rightarrow> None
      | Some (i, l) \<Rightarrow>
          (case list_objs st l of
             None \<Rightarrow> None
           | Some cbs \<Rightarrow>
               (case new_list (cbs @ [(success, error)]) st of
                  (l1, st1) \<Rightarrow> Some (with_callbacks_st i l1 st1))))"

text \<open>The value of the \<^verbatim>\<open>Effect\<close> object at a reference.\<close>

definition effect_at :: "store \<Rightarrow> nat \<Rightarrow> effect option" where
  "effect_at st r =
     (case effect_objs st r of
        None \<Rightarrow> None
      | Some (i, l) \<Rightarrow> map_option (Effect_obj i) (list_objs st l))"

text \<open>Every reference in use is below the next unused one.\<close>

definition wf_store :: "store \<Rightarrow> bool" where
  "wf_store st =
     ((\<forall>r i l. effect_objs st r = Some (i, l) \<longrightarrow> r < next_ref st \<and> l < next_ref st)
      \<and> (\<forall>l xs. list_objs st l = Some xs \<longrightarrow> l < next_ref st))"

definition empty_store :: store where
  "empty_store = \<lparr>effect_objs = Map.empty, list_objs = Map.empty, next_ref = 0\<rparr>"

subsection \<open>What a gathered Deferred fires with\<close>

text \<open>
  Modelled from the spec: \<^verbatim>\<open>gatherResults\<close>, which is Twisted's and not in the source;
  the module only calls it. In the words of the spec it awaits all children and produces, in
  the same order as the input sequence, the aggregate list of their resolved results, and it
  fails if any child fails: the returned Deferred fires with the list of the results of the
  given Deferreds, in the order in which they were given, once all of them have succeeded. \<open>settled d\<close> stands for the outcome the Deferred \<open>d\<close> has in the end, whenever
  that is; the function is arbitrary, so nothing is assumed about the order in time in which
  the Deferreds complete. When one of them fails the gathered Deferred fails, and with which
  failure depends on that order: \<open>None\<close>.
\<close>

definition gatherResults_value :: "(val \<Rightarrow> exc + val) \<Rightarrow> val list \<Rightarrow> val option" where
  "gatherResults_value settled ds =
     (if list_all (\<lambda>d. case settled d of Inr _ \<Rightarrow> True | Inl _ \<Rightarrow> False) ds
      then Some (VList (map (\<lambda>d. case settled d of Inr v \<Rightarrow> v | Inl _ \<Rightarrow> VNone) ds))
      else None)"

subsection \<open>Example programs\<close>

text \<open>
  An environment in which every function is \<^verbatim>\<open>lambda x: 1\<close>: a call with one argument
  returns 1, a call with another number of arguments raises \<^verbatim>\<open>TypeError\<close>.
\<close>

definition unary_env :: "unit env" where
  "unary_env f args w = (case args of [x] \<Rightarrow> (Inr (VInt 1), w) | _ \<Rightarrow> (Inl TypeError, w))"

text \<open>
  An environment whose functions accept any arguments: function 0 returns 10, function 1
  returns its argument plus 1 when it is called with one number, function 2 raises
  \<^verbatim>\<open>Error('boom', None)\<close>, function 3 returns 0 (an error callback that recovers), and
  every other function returns \<^verbatim>\<open>None\<close>. The world counts the calls.
\<close>

definition demo_env :: "nat env" where
  "demo_env f args w =
     (if f = 0 then (Inr (VInt 10), Suc w)
      else if f = 1 then
        (case args of [VInt k] \<Rightarrow> (Inr (VInt (k + 1)), Suc w) | _ \<Rightarrow> (Inr VNone, Suc w))
      else if f = 2 then (Inl (Error ''boom'' VNone), Suc w)
      else if f = 3 then (Inr (VInt 0), Suc w)
      else (Inr VNone, Suc w))"

text \<open>
  An environment of functions with a fixed number of parameters: function 0 is a handler
  \<^verbatim>\<open>lambda intent, handlers: 10\<close>, function 1 is \<^verbatim>\<open>lambda x: x + 1\<close> on numbers,
  and every other function is \<^verbatim>\<open>lambda x: 0\<close>. A call with another number of arguments
  raises \<^verbatim>\<open>TypeError\<close>, as does \<^verbatim>\<open>x + 1\<close> for an \<open>x\<close> of the model that is no
  number. The world counts the calls that returned.
\<close>

definition arity_env :: "nat env" where
  "arity_env f args w =
     (if f = 0 then
        (case args of [i, h] \<Rightarrow> (Inr (VInt 10), Suc w) | _ \<Rightarrow> (Inl TypeError, w))
      else if f = 1 then
        (case args of [VInt k] \<Rightarrow> (Inr (VInt (k + 1)), Suc w) | _ \<Rightarrow> (Inl TypeError, w))
      else
        (case args of [x] \<Rightarrow> (Inr (VInt 0), Suc w) | _ \<Rightarrow> (Inl TypeError, w)))"

text \<open>
  The environment \<open>demo_env\<close>, but function 4 returns a Deferred that has not fired and
  has nothing attached.
\<close>

definition deferred_env :: "nat env" where
  "deferred_env f args w =
     (if f = 4 then (Inr (VDeferred (Unfired 0) []), Suc w) else demo_env f args w)"


text \<open>
  An environment in which function \<open>f\<close> returns the number \<open>f\<close>, and the outcome of a
  Deferred that has already succeeded and has nothing attached.
\<close>

definition const_env :: "nat env" where
  "const_env f args w = (Inr (VInt (int f)), Suc w)"

fun settled_now :: "val \<Rightarrow> exc + val" where
  "settled_now (VDeferred (Succeed v) []) = Inr v"
| "settled_now _ = Inl TypeError"

definition s0 :: "nat state" where
  "s0 = \<lparr>world = 0, calls = []\<rparr>"

definition u0 :: "unit state" where
  "u0 = \<lparr>world = (), calls = []\<rparr>"

section \<open>Properties\<close>

subsection \<open>Auxiliary facts\<close>

declare perform.simps [simp del]
declare dispatch_callback_chain.simps [simp del]
declare maybe_chain.simps [simp del]
declare dispatch_callback.simps [simp del]

lemma chain_deferred_eq: "chain_deferred d att cbs = VDeferred d (att @ map attach_of cbs)"
  by (induction cbs arbitrary: att) (auto simp: attach_of_def)

lemma maybe_chain_plain: "plain v \<Longrightarrow> maybe_chain n ver env v h s = Some (Inr v, s)"
  by (cases v) (simp_all add: maybe_chain.simps)

lemma maybe_chain_exc_info [simp]:
  "maybe_chain n ver env (VExcInfo e) h s = Some (Inr (VExcInfo e), s)"
  by (simp add: maybe_chain.simps)

lemma dispatch_loop_append:
  "dispatch_loop n ver env cbs h idx (A @ B) er r s =
     (case dispatch_loop n ver env cbs h idx A er r s of
        Some (Completed er1 r1, s1) \<Rightarrow> dispatch_loop n ver env cbs h (idx + length A) B er1 r1 s1
      | x \<Rightarrow> x)"
proof (induction A arbitrary: idx er r s)
  case Nil
  then show ?case by simp
next
  case (Cons a A)
  obtain sc ec where a: "a = (sc, ec)" by (cases a)
  show ?case
  proof (cases "if \<not> er then sc else ec")
    case None
    then show ?thesis
      by (simp add: a Cons cong: option.case_cong prod.case_cong loop_exit.case_cong)
  next
    case (Some c)
    show ?thesis
    proof (cases "dispatch_callback n ver env c r s")
      case None
      with Some show ?thesis by (simp add: a)
    next
      case dc: (Some y)
      obtain er1 r1 t1 where y: "y = ((er1, r1), t1)" by (cases y) auto
      show ?thesis
      proof (cases "maybe_chain n ver env r1 h t1")
        case None
        with Some dc y show ?thesis by (simp add: a)
      next
        case mc: (Some z)
        obtain o2 t2 where z: "z = (o2, t2)" by (cases z)
        show ?thesis
        proof (cases o2)
          case (Inl x)
          with Some dc y mc z show ?thesis by (simp add: a)
        next
          case (Inr v)
          with Some dc y mc z show ?thesis
            by (cases v)
               (simp_all add: a Cons cong: option.case_cong prod.case_cong loop_exit.case_cong)
        qed
      qed
    qed
  qed
qed

lemma dispatch_loop_skip_error:
  "\<forall>p\<in>set pre. snd p = None \<Longrightarrow>
   dispatch_loop n ver env cbs h idx (pre @ rest) True r s =
   dispatch_loop n ver env cbs h (idx + length pre) rest True r s"
  by (induction pre arbitrary: idx) auto

text \<open>No function of the engine removes an entry from the log of calls.\<close>

lemma extends_refl [simp]: "extends s s"
  by (simp add: extends_def)

lemma extends_trans: "extends s s1 \<Longrightarrow> extends s1 s2 \<Longrightarrow> extends s s2"
  by (auto simp: extends_def)

lemma invoke_calls: "invoke env f args s = (r, s1) \<Longrightarrow> calls s1 = calls s @ [(f, args, r)]"
  by (auto simp: invoke_def split: prod.splits)

lemma invoke_extends: "invoke env f args s = (r, s1) \<Longrightarrow> extends s s1"
  by (auto simp: extends_def dest: invoke_calls)

lemma perform_extends_atD:
  "perform_extends_at n ver env \<Longrightarrow> perform n ver env e h s = Some (r, s1) \<Longrightarrow> extends s s1"
  by (auto simp: perform_extends_at_def)

lemma children_extends:
  assumes P: "perform_extends_at n ver env"
  shows "perform_children n ver env es h s = Some (ds, s1) \<Longrightarrow> extends s s1"
proof (induction es arbitrary: s ds s1)
  case Nil
  then show ?case by simp
next
  case (Cons e es)
  then show ?case
    by (auto split: option.splits prod.splits dest!: perform_extends_atD[OF P]
             intro: extends_trans)
qed

lemma call_extends:
  assumes P: "perform_extends_at n ver env"
  shows "call n ver env c a s = Some (r, s1) \<Longrightarrow> extends s s1"
  by (cases c)
     (auto split: val.splits option.splits dest: invoke_extends children_extends[OF P])

lemma dispatch_callback_extends:
  assumes P: "perform_extends_at n ver env"
  shows "dispatch_callback n ver env c a s = Some (r, s1) \<Longrightarrow> extends s s1"
  by (auto simp: dispatch_callback.simps split: option.splits prod.splits sum.splits
           dest: call_extends[OF P])

lemma maybe_chain_extends:
  assumes P: "perform_extends_at n ver env"
  shows "maybe_chain n ver env v h s = Some (r, s1) \<Longrightarrow> extends s s1"
  by (auto simp: maybe_chain.simps split: val.splits dest: perform_extends_atD[OF P])

lemma dispatch_loop_extends:
  assumes P: "perform_extends_at n ver env"
  shows "dispatch_loop n ver env cbs h idx steps er r s = Some (x, s1) \<Longrightarrow> extends s s1"
proof (induction steps arbitrary: idx er r s)
  case Nil
  then show ?case by simp
next
  case (Cons st steps)
  obtain sc ec where st: "st = (sc, ec)" by (cases st)
  show ?case
  proof (cases "if \<not> er then sc else ec")
    case None
    with Cons st show ?thesis by simp
  next
    case (Some c)
    from Cons.prems Some st obtain er1 r1 t1 where
      dc: "dispatch_callback n ver env c r s = Some ((er1, r1), t1)"
      by (auto split: option.splits)
    from Cons.prems Some st dc obtain y t2 where
      mc: "maybe_chain n ver env r1 h t1 = Some (y, t2)"
      by (auto split: option.splits)
    have e1: "extends s t1" using dispatch_callback_extends[OF P dc] .
    have e2: "extends t1 t2" using maybe_chain_extends[OF P mc] .
    have "extends t2 s1"
      using Cons.prems Some st dc mc Cons.IH
      by (auto split: sum.splits val.splits)
    with e1 e2 show ?thesis by (blast intro: extends_trans)
  qed
qed

lemma perform_extends: "perform n ver env e h s = Some (r, s1) \<Longrightarrow> extends s s1"
proof (induction n arbitrary: e h s r s1)
  case 0
  then show ?case by (auto simp: perform.simps split: option.splits)
next
  case (Suc n)
  show ?case
  proof (cases "resolve_handler h (intent e)")
    case None
    with Suc.prems show ?thesis by (simp add: perform.simps)
  next
    case (Some c)
    with Suc.prems obtain x where
      "dispatch_loop n ver env (callbacks e) h 0
         ((Some c, None) # map step_of (callbacks e)) False (VDict h) s = Some (x, s1)"
      by (auto simp: perform.simps dispatch_callback_chain.simps
               split: option.splits prod.splits loop_exit.splits)
    then show ?thesis
      by (rule dispatch_loop_extends[rotated])
         (auto simp: perform_extends_at_def dest: Suc.IH)
  qed
qed

lemma perform_extends_at_all: "perform_extends_at n ver env"
  by (auto simp: perform_extends_at_def dest: perform_extends)

text \<open>The first call of a perform is the call of the resolved handler.\<close>

lemma perform_first_call:
  assumes res: "resolve_handler h (intent e) = Some c"
      and c: "c = Partial f (intent e) \<or> c = Method f (intent e)"
      and run: "perform (Suc n) ver env e h s = Some (r, s1)"
  shows "\<exists>out rest. calls s1 = calls s @ (f, [intent e, VDict h], out) # rest"
proof -
  from run res obtain x where
    loop: "dispatch_loop n ver env (callbacks e) h 0
         ((Some c, None) # map step_of (callbacks e)) False (VDict h) s = Some (x, s1)"
    by (auto simp: perform.simps dispatch_callback_chain.simps
             split: option.splits prod.splits loop_exit.splits)
  obtain r0 t0 where inv: "invoke env f [intent e, VDict h] s = (r0, t0)"
    by (cases "invoke env f [intent e, VDict h] s")
  from c inv have cl: "call n ver env c (VDict h) s = Some (r0, t0)"
    by auto
  obtain er1 r1 where dc: "dispatch_callback n ver env c (VDict h) s = Some ((er1, r1), t0)"
    using cl by (cases r0) (auto simp: dispatch_callback.simps)
  from loop dc obtain y t2 where mc: "maybe_chain n ver env r1 h t0 = Some (y, t2)"
    by (auto split: option.splits)
  have e2: "extends t0 t2"
    using maybe_chain_extends[OF perform_extends_at_all mc] .
  have "extends t2 s1"
    using loop dc mc
    by (auto split: sum.splits val.splits
             dest: dispatch_loop_extends[OF perform_extends_at_all])
  with e2 have "extends t0 s1" by (blast intro: extends_trans)
  then obtain ev where "calls s1 = calls t0 @ ev" by (auto simp: extends_def)
  with invoke_calls[OF inv] show ?thesis by simp
qed

text \<open>One step of the walk, by what the selected callable does.\<close>

lemma perform_Suc:
  "resolve_handler h (intent e) = Some c \<Longrightarrow>
   perform (Suc n) ver env e h s = dispatch_callback_chain n ver env (callbacks e) c h s"
  by (simp add: perform.simps)

lemma dispatch_loop_step_raise:
  assumes "(if er then ec else sc) = Some c"
      and "call n ver env c r s = Some (Inl e, s1)"
  shows "dispatch_loop n ver env cbs h idx ((sc, ec) # steps) er r s =
         dispatch_loop n ver env cbs h (Suc idx) steps True (VExcInfo e) s1"
  using assms by (cases er) (simp_all add: dispatch_callback.simps)

lemma dispatch_loop_step_return:
  assumes "(if er then ec else sc) = Some c"
      and "call n ver env c r s = Some (Inr v, s1)"
  shows "dispatch_loop n ver env cbs h idx ((sc, ec) # steps) er r s =
         (case maybe_chain n ver env v h s1 of
            None \<Rightarrow> None
          | Some (Inl x, s2) \<Rightarrow> Some (Propagated x, s2)
          | Some (Inr (VDeferred d att), s2) \<Rightarrow>
              Some (Returned (chain_deferred d att (drop idx cbs)), s2)
          | Some (Inr v1, s2) \<Rightarrow> dispatch_loop n ver env cbs h (Suc idx) steps False v1 s2)"
  using assms by (cases er) (simp_all add: dispatch_callback.simps)

declare dispatch_loop.simps(2) [simp del]

lemma dispatch_loop_skip:
  "(if er then ec else sc) = None \<Longrightarrow>
   dispatch_loop n ver env cbs h idx ((sc, ec) # steps) er r s =
   dispatch_loop n ver env cbs h (Suc idx) steps er r s"
  by (cases er) (simp_all add: dispatch_loop.simps(2))

lemma dispatch_loop_step_plain:
  assumes "(if er then ec else sc) = Some c"
      and "call n ver env c r s = Some (Inr v, s1)"
      and "plain v"
  shows "dispatch_loop n ver env cbs h idx ((sc, ec) # steps) er r s =
         dispatch_loop n ver env cbs h (Suc idx) steps False v s1"
proof -
  have "maybe_chain n ver env v h s1 = Some (Inr v, s1)"
    by (rule maybe_chain_plain[OF assms(3)])
  then show ?thesis
    unfolding dispatch_loop_step_return[OF assms(1,2)]
    using assms(3) by (cases v) simp_all
qed

lemma step_of_error_None: "snd p = None \<Longrightarrow> snd (step_of p) = None"
  by (simp add: step_of_def)

lemma dispatch_loop_no_error_side:
  assumes "\<forall>p\<in>set ps. snd p = None"
  shows "dispatch_loop n ver env cbs h idx (map step_of ps) True r s = Some (Completed True r, s)"
proof -
  have "\<forall>p\<in>set (map step_of ps). snd p = None"
    using assms by (auto simp: step_of_def)
  from dispatch_loop_skip_error[OF this, of n ver env cbs h idx "[]" r s]
  show ?thesis by simp
qed

text \<open>When the flag is set, the result is the triple of the exception that set it.\<close>

lemma dispatch_loop_error_is_exc_info:
  assumes "er \<longrightarrow> (\<exists>x. r = VExcInfo x)"
      and "dispatch_loop n ver env cbs h idx steps er r s = Some (Completed True r1, s1)"
  shows "\<exists>x. r1 = VExcInfo x"
  using assms
proof (induction steps arbitrary: idx er r s)
  case Nil
  then show ?case by auto
next
  case (Cons st steps)
  obtain sc ec where st: "st = (sc, ec)" by (cases st)
  show ?case
  proof (cases "if \<not> er then sc else ec")
    case None
    with Cons st show ?thesis by (simp add: dispatch_loop.simps(2))
  next
    case (Some c)
    from Cons.prems(2) Some st obtain y t1 where
      cl: "call n ver env c r s = Some (y, t1)"
      by (auto simp: dispatch_loop.simps(2) dispatch_callback.simps split: option.splits)
    have sel: "(if er then ec else sc) = Some c" using Some by (cases er) auto
    show ?thesis
    proof (cases y)
      case (Inl e)
      with Cons.prems(2) st dispatch_loop_step_raise[OF sel, of n ver env r s e t1 cbs h idx steps] cl
      have "dispatch_loop n ver env cbs h (Suc idx) steps True (VExcInfo e) t1
              = Some (Completed True r1, s1)"
        by simp
      with Cons.IH[of True "VExcInfo e"] show ?thesis by blast
    next
      case (Inr v)
      with Cons.prems(2) st dispatch_loop_step_return[OF sel, of n ver env r s v t1 cbs h idx steps] cl
      obtain v1 t2 where
        "dispatch_loop n ver env cbs h (Suc idx) steps False v1 t2 = Some (Completed True r1, s1)"
        by (auto split: option.splits sum.splits val.splits)
      with Cons.IH[of False v1] show ?thesis by blast
    qed
  qed
qed

text \<open>Performing an effect without continuation pairs: the handler's call decides.\<close>

lemma perform_wrapped_return:
  assumes res: "resolve_handler h i = Some c"
      and cl: "call n ver env c (VDict h) s = Some (Inr v, t)"
      and pl: "plain v"
  shows "perform (Suc n) ver env (Effect i) h s = Some (Inr v, t)"
proof -
  have sel: "(if False then None else Some c) = Some c" by simp
  have "dispatch_loop n ver env [] h 0 ((Some c, None) # map step_of []) False (VDict h) s
          = Some (Completed False v, t)"
    using dispatch_loop_step_plain[OF sel cl pl, of "[]" h 0 "[]"] by simp
  with res show ?thesis
    by (simp add: perform.simps dispatch_callback_chain.simps Effect_def)
qed

lemma perform_wrapped_raise:
  assumes res: "resolve_handler h i = Some c"
      and cl: "call n ver env c (VDict h) s = Some (Inl x, t)"
  shows "perform (Suc n) ver env (Effect i) h s = Some (Inl (reraise ver (VExcInfo x)), t)"
proof -
  have sel: "(if False then None else Some c) = Some c" by simp
  have "dispatch_loop n ver env [] h 0 ((Some c, None) # map step_of []) False (VDict h) s
          = Some (Completed True (VExcInfo x), t)"
    using dispatch_loop_step_raise[OF sel cl, of "[]" h 0 "[]"] by simp
  with res show ?thesis
    by (simp add: perform.simps dispatch_callback_chain.simps Effect_def)
qed

subsection \<open>Handler resolution\<close>

text \<open>
  Claim C10. When the handler table has no entry for the type of the intent and the intent
  has no \<^verbatim>\<open>perform_effect\<close>, \<^verbatim>\<open>perform\<close> raises \<^verbatim>\<open>NoEffectHandlerError\<close> with
  the intent before the chain walk begins: whatever continuation pairs the effect carries,
  the state and the log of calls are those of the entry, so no callback was invoked, not an
  error-side one either; an \<^verbatim>\<open>on_error\<close> or \<^verbatim>\<open>after\<close> callback attached to the
  effect does not change the outcome. This holds for every bound on the nesting.
\<close>

theorem no_handler_raises_before_walk:
  assumes "map_of h (type_of (intent e)) = None"
      and "getattr_perform_effect (intent e) = None"
  shows "perform n ver env e h s = Some (Inl (NoEffectHandlerError (intent e)), s)
       \<and> perform n ver env (on_error e g) h s = Some (Inl (NoEffectHandlerError (intent e)), s)
       \<and> perform n ver env (after e g) h s = Some (Inl (NoEffectHandlerError (intent e)), s)"
  using assms
  by (simp add: perform.simps resolve_handler_def on_error_def after_def on_def
                with_callbacks_def Effect_def)

theorem no_handler_raises_before_walk_witness:
  "perform 5 Py2 demo_env (Effect_obj (VStr ''x'') [(Some 1, Some 3)]) [(IntType, 0)] s0
     = Some (Inl (NoEffectHandlerError (VStr ''x'')), s0)"
proof -
  have a: "map_of [(IntType, 0::nat)] (type_of (intent (Effect_obj (VStr ''x'') [(Some 1, Some 3)]))) = None"
    by simp
  have b: "getattr_perform_effect (intent (Effect_obj (VStr ''x'') [(Some 1, Some 3)])) = None"
    by simp
  from no_handler_raises_before_walk[OF a b, of 5 Py2 demo_env s0] show ?thesis
    by simp
qed
text \<open>
  Claim C7. Handler resolution has a fixed precedence. If the handler table has an entry
  \<open>f\<close> for the type of the intent, \<^verbatim>\<open>perform\<close> calls that entry, also when the intent
  has a \<^verbatim>\<open>perform_effect\<close> of its own. For an effect without continuation pairs: when
  the call of \<open>f\<close> on the intent and the table returns a value (neither an effect nor a
  Deferred), \<^verbatim>\<open>perform\<close> returns that value; when the call raises, \<^verbatim>\<open>perform\<close>
  raises, by \<^verbatim>\<open>raise result[1:]\<close>; and in both cases this one call is all it did. For an
  effect with pairs, the call of \<open>f\<close> is the first call of every \<^verbatim>\<open>perform\<close> that
  ends. If the table has no entry and the intent is an instance whose class defines
  \<^verbatim>\<open>perform_effect\<close> as \<open>m\<close>, the same holds of \<open>m\<close>, called on the intent with the
  handler table as its argument. If there is neither, \<^verbatim>\<open>perform\<close> raises
  \<^verbatim>\<open>NoEffectHandlerError\<close> carrying the intent to its caller, for any continuation pairs.
\<close>

theorem handler_resolution_precedence:
  "(map_of h (type_of i) = Some f \<and> invoke env f [i, VDict h] s = (Inr v, t) \<and> plain v
      \<longrightarrow> perform (Suc n) ver env (Effect i) h s = Some (Inr v, t)
          \<and> calls t = calls s @ [(f, [i, VDict h], Inr v)])
 \<and> (map_of h (type_of i) = Some f \<and> invoke env f [i, VDict h] s = (Inl x, t)
      \<longrightarrow> perform (Suc n) ver env (Effect i) h s = Some (Inl (reraise ver (VExcInfo x)), t)
          \<and> calls t = calls s @ [(f, [i, VDict h], Inl x)])
 \<and> (map_of h (type_of i) = None \<and> i = VInstance c (Some m) fs
      \<and> invoke env m [i, VDict h] s = (Inr v, t) \<and> plain v
      \<longrightarrow> perform (Suc n) ver env (Effect i) h s = Some (Inr v, t)
          \<and> calls t = calls s @ [(m, [i, VDict h], Inr v)])
 \<and> (map_of h (type_of i) = None \<and> i = VInstance c (Some m) fs
      \<and> invoke env m [i, VDict h] s = (Inl x, t)
      \<longrightarrow> perform (Suc n) ver env (Effect i) h s = Some (Inl (reraise ver (VExcInfo x)), t)
          \<and> calls t = calls s @ [(m, [i, VDict h], Inl x)])
 \<and> (map_of h (type_of i) = Some f \<and> perform (Suc n) ver env (Effect_obj i cbs) h s = Some (r, s1)
      \<longrightarrow> (\<exists>out rest. calls s1 = calls s @ (f, [i, VDict h], out) # rest))
 \<and> (map_of h (type_of i) = None \<and> i = VInstance c (Some m) fs
      \<and> perform (Suc n) ver env (Effect_obj i cbs) h s = Some (r, s1)
      \<longrightarrow> (\<exists>out rest. calls s1 = calls s @ (m, [i, VDict h], out) # rest))
 \<and> (map_of h (type_of i) = None \<and> getattr_perform_effect i = None
      \<longrightarrow> perform n ver env (Effect_obj i cbs) h s = Some (Inl (NoEffectHandlerError i), s))"
proof -
  have c1: "perform (Suc n) ver env (Effect i) h s = Some (Inr v, t)
          \<and> calls t = calls s @ [(f, [i, VDict h], Inr v)]"
    if a: "map_of h (type_of i) = Some f \<and> invoke env f [i, VDict h] s = (Inr v, t) \<and> plain v"
  proof -
    from a have res: "resolve_handler h i = Some (Partial f i)"
      by (auto simp: resolve_handler_def)
    from a have cl: "call n ver env (Partial f i) (VDict h) s = Some (Inr v, t)" by auto
    from a have inv: "invoke env f [i, VDict h] s = (Inr v, t)" by auto
    from a have pl: "plain v" by auto
    from perform_wrapped_return[OF res cl pl] invoke_calls[OF inv]
    show ?thesis by simp
  qed
  have c2: "perform (Suc n) ver env (Effect i) h s = Some (Inl (reraise ver (VExcInfo x)), t)
          \<and> calls t = calls s @ [(f, [i, VDict h], Inl x)]"
    if a: "map_of h (type_of i) = Some f \<and> invoke env f [i, VDict h] s = (Inl x, t)"
  proof -
    from a have res: "resolve_handler h i = Some (Partial f i)"
      by (auto simp: resolve_handler_def)
    from a have cl: "call n ver env (Partial f i) (VDict h) s = Some (Inl x, t)" by auto
    from a have inv: "invoke env f [i, VDict h] s = (Inl x, t)" by auto
    from perform_wrapped_raise[OF res cl] invoke_calls[OF inv]
    show ?thesis by simp
  qed
  have c3: "perform (Suc n) ver env (Effect i) h s = Some (Inr v, t)
          \<and> calls t = calls s @ [(m, [i, VDict h], Inr v)]"
    if a: "map_of h (type_of i) = None \<and> i = VInstance c (Some m) fs
      \<and> invoke env m [i, VDict h] s = (Inr v, t) \<and> plain v"
  proof -
    from a have res: "resolve_handler h i = Some (Method m i)"
      by (auto simp: resolve_handler_def)
    from a have cl: "call n ver env (Method m i) (VDict h) s = Some (Inr v, t)" by auto
    from a have inv: "invoke env m [i, VDict h] s = (Inr v, t)" by auto
    from a have pl: "plain v" by auto
    from perform_wrapped_return[OF res cl pl] invoke_calls[OF inv]
    show ?thesis by simp
  qed
  have c4: "perform (Suc n) ver env (Effect i) h s = Some (Inl (reraise ver (VExcInfo x)), t)
          \<and> calls t = calls s @ [(m, [i, VDict h], Inl x)]"
    if a: "map_of h (type_of i) = None \<and> i = VInstance c (Some m) fs
      \<and> invoke env m [i, VDict h] s = (Inl x, t)"
  proof -
    from a have res: "resolve_handler h i = Some (Method m i)"
      by (auto simp: resolve_handler_def)
    from a have cl: "call n ver env (Method m i) (VDict h) s = Some (Inl x, t)" by auto
    from a have inv: "invoke env m [i, VDict h] s = (Inl x, t)" by auto
    from perform_wrapped_raise[OF res cl] invoke_calls[OF inv]
    show ?thesis by simp
  qed
  have c5: "\<exists>out rest. calls s1 = calls s @ (f, [i, VDict h], out) # rest"
    if a: "map_of h (type_of i) = Some f
      \<and> perform (Suc n) ver env (Effect_obj i cbs) h s = Some (r, s1)"
  proof -
    from a have "resolve_handler h (intent (Effect_obj i cbs)) = Some (Partial f i)"
      by (auto simp: resolve_handler_def)
    from perform_first_call[OF this _ conjunct2[OF a]] show ?thesis by simp
  qed
  have c6: "\<exists>out rest. calls s1 = calls s @ (m, [i, VDict h], out) # rest"
    if a: "map_of h (type_of i) = None \<and> i = VInstance c (Some m) fs
      \<and> perform (Suc n) ver env (Effect_obj i cbs) h s = Some (r, s1)"
  proof -
    from a have "resolve_handler h (intent (Effect_obj i cbs)) = Some (Method m i)"
      by (auto simp: resolve_handler_def)
    from perform_first_call[OF this _ conjunct2[OF conjunct2[OF a]]] show ?thesis by simp
  qed
  have c7: "perform n ver env (Effect_obj i cbs) h s = Some (Inl (NoEffectHandlerError i), s)"
    if "map_of h (type_of i) = None \<and> getattr_perform_effect i = None"
    using that by (simp add: perform.simps resolve_handler_def)
  show ?thesis
    by (rule conjI[OF impI[OF c1] conjI[OF impI[OF c2] conjI[OF impI[OF c3]
          conjI[OF impI[OF c4] conjI[OF impI[OF c5] conjI[OF impI[OF c6] impI[OF c7]]]]]]])
qed

theorem handler_resolution_precedence_witness:
  "perform (Suc 0) Py3 demo_env (Effect (VInstance ''Sleep'' (Some 1) []))
     [(ClassType ''Sleep'', 0)] s0
     = Some (Inr (VInt 10),
         \<lparr>world = 1,
          calls = [(0, [VInstance ''Sleep'' (Some 1) [], VDict [(ClassType ''Sleep'', 0)]],
                      Inr (VInt 10))]\<rparr>)
 \<and> perform (Suc 0) Py3 demo_env (Effect (VInt 7)) [(IntType, 2)] s0
     = Some (Inl TypeError,
         \<lparr>world = 1,
          calls = [(2, [VInt 7, VDict [(IntType, 2)]], Inl (Error ''boom'' VNone))]\<rparr>)
 \<and> perform (Suc 0) Py3 demo_env (Effect (VInstance ''Sleep'' (Some 1) [VInt 4])) [] s0
     = Some (Inr VNone,
         \<lparr>world = 1,
          calls = [(1, [VInstance ''Sleep'' (Some 1) [VInt 4], VDict []], Inr VNone)]\<rparr>)
 \<and> perform 0 Py3 demo_env (Effect_obj (VInt 3) [(Some 1, Some 3)]) [] s0
     = Some (Inl (NoEffectHandlerError (VInt 3)), s0)"
proof -
  let ?i = "VInstance ''Sleep'' (Some 1) []"
  let ?h = "[(ClassType ''Sleep'', 0::nat)]"
  let ?j = "VInstance ''Sleep'' (Some 1) [VInt 4]"
  let ?boom = "Error ''boom'' VNone"
  let ?t1 = "\<lparr>world = 1::nat, calls = [(0::nat, [?i, VDict ?h], Inr (VInt 10))]\<rparr>"
  let ?t2 = "\<lparr>world = 1::nat, calls = [(2::nat, [VInt 7, VDict [(IntType, 2::nat)]], Inl ?boom)]\<rparr>"
  let ?t3 = "\<lparr>world = 1::nat, calls = [(1::nat, [?j, VDict []], Inr VNone)]\<rparr>"
  have a1: "map_of ?h (type_of ?i) = Some 0
      \<and> invoke demo_env 0 [?i, VDict ?h] s0 = (Inr (VInt 10), ?t1) \<and> plain (VInt 10)"
    by (simp add: invoke_def demo_env_def s0_def)
  have a2: "map_of [(IntType, 2::nat)] (type_of (VInt 7)) = Some 2
      \<and> invoke demo_env 2 [VInt 7, VDict [(IntType, 2)]] s0 = (Inl ?boom, ?t2)"
    by (simp add: invoke_def demo_env_def s0_def)
  have a3: "map_of [] (type_of ?j) = None \<and> ?j = VInstance ''Sleep'' (Some 1) [VInt 4]
      \<and> invoke demo_env 1 [?j, VDict []] s0 = (Inr VNone, ?t3) \<and> plain VNone"
    by (simp add: invoke_def demo_env_def s0_def)
  have a7: "map_of [] (type_of (VInt 3)) = None \<and> getattr_perform_effect (VInt 3) = None"
    by simp
  have A: "perform (Suc 0) Py3 demo_env (Effect ?i) ?h s0 = Some (Inr (VInt 10), ?t1)"
    by (rule handler_resolution_precedence[THEN conjunct1, THEN mp, OF a1, THEN conjunct1])
  have B: "perform (Suc 0) Py3 demo_env (Effect (VInt 7)) [(IntType, 2)] s0
      = Some (Inl TypeError, ?t2)"
    using handler_resolution_precedence[where ver = Py3 and n = 0, THEN conjunct2,
          THEN conjunct1, THEN mp, OF a2, THEN conjunct1]
    by simp
  have C: "perform (Suc 0) Py3 demo_env (Effect ?j) [] s0 = Some (Inr VNone, ?t3)"
    by (rule handler_resolution_precedence[THEN conjunct2, THEN conjunct2, THEN conjunct1,
          THEN mp, OF a3, THEN conjunct1])
  have D: "perform 0 Py3 demo_env (Effect_obj (VInt 3) [(Some 1, Some 3)]) [] s0
      = Some (Inl (NoEffectHandlerError (VInt 3)), s0)"
    by (rule handler_resolution_precedence[THEN conjunct2, THEN conjunct2, THEN conjunct2,
          THEN conjunct2, THEN conjunct2, THEN conjunct2, THEN mp, OF a7])
  show ?thesis
    by (rule conjI[OF A conjI[OF B conjI[OF C D]]])
qed

text \<open>
  Claim C6, as stated: a table entry is invoked as a unary call, the intent its only
  argument. The code calls \<^verbatim>\<open>partial(handlers[type(intent)], intent)\<close> with the initial
  \<^verbatim>\<open>result\<close>, which is the handler table, so the entry receives two arguments. With a
  unary function as the entry for \<^verbatim>\<open>int\<close>, performing \<^verbatim>\<open>Effect(7)\<close> calls it with
  7 and the table, and the resulting \<^verbatim>\<open>TypeError\<close> is what \<^verbatim>\<open>perform\<close> raises.
\<close>

theorem table_entry_unary_call_counterexample:
  "perform 1 Py2 unary_env (Effect (VInt 7)) [(IntType, 0)] u0
     = Some (Inl TypeError, \<lparr>world = (), calls = [(0, [VInt 7, VDict [(IntType, 0)]], Inl TypeError)]\<rparr>)
   \<and> perform 1 Py2 unary_env (Effect (VInt 7)) [(IntType, 0)] u0
     \<noteq> Some (Inr (VInt 1), \<lparr>world = (), calls = [(0, [VInt 7], Inr (VInt 1))]\<rparr>)"
  by (simp add: perform.simps dispatch_callback_chain.simps dispatch_callback.simps dispatch_loop.simps(2)
        maybe_chain.simps resolve_handler_def Effect_def invoke_def unary_env_def u0_def)

text \<open>
  Claim C6, amended. For every intent whose runtime type is a key of the handler table,
  \<^verbatim>\<open>perform\<close> invokes that entry first, with two positional arguments: the intent and
  the handler table. When the entry returns a value that is neither an effect nor a
  Deferred and the effect has no continuation pairs, that value is what \<^verbatim>\<open>perform\<close>
  returns, after this one call.
\<close>

theorem table_entry_called_with_intent_and_table:
  assumes "map_of h (type_of i) = Some f"
  shows "(perform (Suc n) ver env (Effect_obj i cbs) h s = Some (r, s1)
            \<longrightarrow> (\<exists>out rest. calls s1 = calls s @ (f, [i, VDict h], out) # rest))
       \<and> (invoke env f [i, VDict h] s = (Inr v, t) \<and> plain v
            \<longrightarrow> perform (Suc n) ver env (Effect i) h s = Some (Inr v, t))"
proof (intro conjI impI)
  from assms have res: "resolve_handler h (intent (Effect_obj i cbs)) = Some (Partial f i)"
    by (simp add: resolve_handler_def)
  assume "perform (Suc n) ver env (Effect_obj i cbs) h s = Some (r, s1)"
  from perform_first_call[OF res _ this]
  show "\<exists>out rest. calls s1 = calls s @ (f, [i, VDict h], out) # rest" by simp
next
  assume a: "invoke env f [i, VDict h] s = (Inr v, t) \<and> plain v"
  then have "maybe_chain n ver env v h t = Some (Inr v, t)"
    by (simp add: maybe_chain_plain)
  with a assms show "perform (Suc n) ver env (Effect i) h s = Some (Inr v, t)"
    by (cases v)
       (simp_all add: perform.simps dispatch_callback_chain.simps dispatch_callback.simps dispatch_loop.simps(2)
          resolve_handler_def Effect_def)
qed

theorem table_entry_called_with_intent_and_table_witness:
  "(\<exists>out rest. calls \<lparr>world = 1::nat, calls = [(0, [VInt 7, VDict [(IntType, 0)]], Inr (VInt 10))]\<rparr>
       = calls s0 @ (0, [VInt 7, VDict [(IntType, 0)]], out) # rest)
   \<and> perform (Suc 0) Py2 demo_env (Effect (VInt 7)) [(IntType, 0)] s0
       = Some (Inr (VInt 10), \<lparr>world = 1, calls = [(0, [VInt 7, VDict [(IntType, 0)]], Inr (VInt 10))]\<rparr>)"
proof -
  let ?h = "[(IntType, 0::nat)]"
  let ?t = "\<lparr>world = 1::nat, calls = [(0::nat, [VInt 7, VDict ?h], Inr (VInt 10))]\<rparr>"
  have a: "map_of ?h (type_of (VInt 7)) = Some 0" by simp
  have b: "perform (Suc 0) Py2 demo_env (Effect_obj (VInt 7) []) ?h s0 = Some (Inr (VInt 10), ?t)"
    by (simp add: perform.simps dispatch_callback_chain.simps dispatch_callback.simps dispatch_loop.simps(2)
          maybe_chain.simps resolve_handler_def invoke_def demo_env_def s0_def)
  have c: "invoke demo_env 0 [VInt 7, VDict ?h] s0 = (Inr (VInt 10), ?t) \<and> plain (VInt 10)"
    by (simp add: invoke_def demo_env_def s0_def)
  from table_entry_called_with_intent_and_table[OF a, of 0 Py2 demo_env "[]" s0 "Inr (VInt 10)" ?t "VInt 10" ?t]
    b c
  show ?thesis by blast
qed

subsection \<open>The error path\<close>

text \<open>
  Claim C2. In a synchronous chain walk, let the callable of a step (the handler or a
  callback, on either side) raise \<open>e\<close>, and let the pairs after it be \<open>pre\<close>, without
  error sides, then a pair with the error side \<open>g\<close>, then \<open>post\<close>. The walk goes from the
  state \<open>s1\<close> in which the call raised straight to the call of \<open>g\<close> with the captured
  fault: no success side of \<open>pre\<close> or of the pair of \<open>g\<close> is invoked, and the fault passes
  \<open>pre\<close> unchanged. If \<open>g\<close> raises in turn, the walk goes on in error with the new fault.
  If \<open>g\<close> returns normally, the flag is false again and the walk goes on through \<open>post\<close>
  selecting success sides, with the value \<open>g\<close> returned (after \<^verbatim>\<open>_maybe_chain\<close>, which
  leaves a plain value as it is).
\<close>

theorem error_routed_to_nearest_error_side:
  assumes sel: "(if er then ec else sc) = Some c"
      and raises: "call n ver env c r s = Some (Inl e, s1)"
      and pre: "\<forall>p\<in>set pre. snd p = None"
  shows "dispatch_loop n ver env cbs h idx
           ((sc, ec) # map step_of (pre @ (sg, Some g) # post)) er r s =
         (case invoke env g [VExcInfo e] s1 of
            (Inl e1, s2) \<Rightarrow>
              dispatch_loop n ver env cbs h (idx + length pre + 2) (map step_of post)
                True (VExcInfo e1) s2
          | (Inr v, s2) \<Rightarrow>
              (case maybe_chain n ver env v h s2 of
                 None \<Rightarrow> None
               | Some (Inl x, s3) \<Rightarrow> Some (Propagated x, s3)
               | Some (Inr (VDeferred d att), s3) \<Rightarrow>
                   Some (Returned (chain_deferred d att (drop (idx + length pre + 1) cbs)), s3)
               | Some (Inr v1, s3) \<Rightarrow>
                   dispatch_loop n ver env cbs h (idx + length pre + 2) (map step_of post)
                     False v1 s3))"
proof -
  have p: "\<forall>p\<in>set (map step_of pre). snd p = None"
    using pre by (auto simp: step_of_def)
  have "dispatch_loop n ver env cbs h idx
           ((sc, ec) # map step_of (pre @ (sg, Some g) # post)) er r s =
        dispatch_loop n ver env cbs h (Suc idx)
           (map step_of pre @ step_of (sg, Some g) # map step_of post) True (VExcInfo e) s1"
    using dispatch_loop_step_raise[OF sel raises] by simp
  also have "\<dots> = dispatch_loop n ver env cbs h (Suc idx + length (map step_of pre))
           (step_of (sg, Some g) # map step_of post) True (VExcInfo e) s1"
    by (rule dispatch_loop_skip_error[OF p])
  also have "\<dots> = dispatch_loop n ver env cbs h (idx + length pre + 1)
           ((map_option Function sg, Some (Function g)) # map step_of post) True (VExcInfo e) s1"
    by (simp add: step_of_def)
  finally have skip: "dispatch_loop n ver env cbs h idx
           ((sc, ec) # map step_of (pre @ (sg, Some g) # post)) er r s =
        dispatch_loop n ver env cbs h (idx + length pre + 1)
           ((map_option Function sg, Some (Function g)) # map step_of post) True (VExcInfo e) s1" .
  obtain y s2 where inv: "invoke env g [VExcInfo e] s1 = (y, s2)"
    by (cases "invoke env g [VExcInfo e] s1")
  have sel2: "(if True then Some (Function g) else map_option Function sg) = Some (Function g)"
    by simp
  have cl: "call n ver env (Function g) (VExcInfo e) s1 = Some (y, s2)"
    using inv by simp
  show ?thesis
  proof (cases y)
    case (Inl e1)
    with skip inv dispatch_loop_step_raise[OF sel2, of n ver env "VExcInfo e" s1 e1 s2] cl
    show ?thesis by simp
  next
    case (Inr v)
    with skip inv dispatch_loop_step_return[OF sel2, of n ver env "VExcInfo e" s1 v s2] cl
    show ?thesis
      by (simp cong: option.case_cong prod.case_cong sum.case_cong val.case_cong)
  qed
qed

theorem error_routed_to_nearest_error_side_witness:
  "dispatch_loop 0 Py2 demo_env [(Some 1, None), (Some 1, Some 3), (Some 1, None)] [(IntType, 2)] 0
     ((Some (Partial 2 (VInt 7)), None)
        # map step_of ([(Some 1, None)] @ (Some 1, Some 3) # [(Some 1, None)]))
     False (VDict [(IntType, 2)]) s0
   = Some (Completed False (VInt 1),
       \<lparr>world = 3,
        calls = [(2, [VInt 7, VDict [(IntType, 2)]], Inl (Error ''boom'' VNone)),
                 (3, [VExcInfo (Error ''boom'' VNone)], Inr (VInt 0)),
                 (1, [VInt 0], Inr (VInt 1))]\<rparr>)"
proof -
  let ?h = "[(IntType, 2::nat)]"
  let ?s1 = "\<lparr>world = 1::nat, calls = [(2::nat, [VInt 7, VDict ?h], Inl (Error ''boom'' VNone))]\<rparr>"
  have sel: "(if False then None else Some (Partial 2 (VInt 7))) = Some (Partial 2 (VInt 7))"
    by simp
  have raises: "call 0 Py2 demo_env (Partial 2 (VInt 7)) (VDict ?h) s0
      = Some (Inl (Error ''boom'' VNone), ?s1)"
    by (simp add: invoke_def demo_env_def s0_def)
  have pre: "\<forall>p\<in>set [(Some (1::nat), None :: fid option)]. snd p = None"
    by simp
  show ?thesis
    unfolding error_routed_to_nearest_error_side[OF sel raises pre]
    by (simp add: invoke_def demo_env_def maybe_chain.simps step_of_def dispatch_callback.simps
          dispatch_loop.simps(2))
qed

subsection \<open>The end of a synchronous walk\<close>

text \<open>
  A walk that runs to its end with the flag false returns its result; with the flag true it
  executes \<^verbatim>\<open>raise result[1:]\<close>.
\<close>

lemma walk_success_returns:
  assumes "resolve_handler h (intent e) = Some c"
      and "dispatch_loop n ver env (callbacks e) h 0
             ((Some c, None) # map step_of (callbacks e)) False (VDict h) s
           = Some (Completed False r, s1)"
  shows "perform (Suc n) ver env e h s = Some (Inr r, s1)"
  using assms by (simp add: perform_Suc dispatch_callback_chain.simps)

lemma walk_error_raises:
  assumes "resolve_handler h (intent e) = Some c"
      and "dispatch_loop n ver env (callbacks e) h 0
             ((Some c, None) # map step_of (callbacks e)) False (VDict h) s
           = Some (Completed True r, s1)"
  shows "perform (Suc n) ver env e h s = Some (Inl (reraise ver r), s1)"
  using assms by (simp add: perform_Suc dispatch_callback_chain.simps)

text \<open>
  Under Python 3 the statement \<^verbatim>\<open>raise result[1:]\<close> itself fails, whatever was
  captured: a walk that ends in error raises \<^verbatim>\<open>TypeError\<close>.
\<close>

lemma walk_error_Py3:
  assumes "resolve_handler h (intent e) = Some c"
      and "dispatch_loop n Py3 env (callbacks e) h 0
             ((Some c, None) # map step_of (callbacks e)) False (VDict h) s
           = Some (Completed True r, s1)"
  shows "perform (Suc n) Py3 env e h s = Some (Inl TypeError, s1)"
  using assms by (simp add: perform_Suc dispatch_callback_chain.simps)

lemma walk_raise_without_error_sides:
  assumes noerr: "\<forall>p\<in>set cbs. snd p = None"
      and split: "(Some c, None) # map step_of cbs = A @ (Some k, ek) # B"
      and before: "dispatch_loop n ver env cbs h 0 A False (VDict h) s = Some (Completed False r0, t0)"
      and raises: "call n ver env k r0 t0 = Some (Inl x, t1)"
  shows "dispatch_loop n ver env cbs h 0 ((Some c, None) # map step_of cbs) False (VDict h) s
           = Some (Completed True (VExcInfo x), t1)"
proof -
  have "set B \<subseteq> set ((Some c, None) # map step_of cbs)"
    unfolding split by auto
  with noerr have B: "\<forall>p\<in>set B. snd p = None"
    by (auto simp: step_of_def)
  have sel: "(if False then ek else Some k) = Some k" by simp
  have "dispatch_loop n ver env cbs h 0 (A @ (Some k, ek) # B) False (VDict h) s
          = dispatch_loop n ver env cbs h (0 + length A) ((Some k, ek) # B) False r0 t0"
    by (simp add: dispatch_loop_append before)
  also have "\<dots> = dispatch_loop n ver env cbs h (Suc (0 + length A)) B True (VExcInfo x) t1"
    by (rule dispatch_loop_step_raise[OF sel raises])
  also have "\<dots> = Some (Completed True (VExcInfo x), t1)"
    using dispatch_loop_skip_error[OF B, of n ver env cbs h "Suc (0 + length A)" "[]" "VExcInfo x" t1]
    by simp
  finally show ?thesis by (simp add: split)
qed

text \<open>
  Claim C3. The claim says that a walk which completes synchronously with the error flag
  set raises the captured fault to the caller of \<^verbatim>\<open>perform\<close>, and that a caller with no
  error sides sees the original fault of the raising handler. The code attempts this with
  \<^verbatim>\<open>raise result[1:]\<close>, where \<^verbatim>\<open>result\<close> is the triple \<^verbatim>\<open>sys.exc_info()\<close>; the
  operand of \<^verbatim>\<open>raise\<close> is then a tuple, and Python 3 answers \<^verbatim>\<open>TypeError\<close>. Take
  \<^verbatim>\<open>Effect(7).on_success(f1)\<close> and the table \<^verbatim>\<open>{int: f2}\<close>, where \<^verbatim>\<open>f2\<close> raises
  \<^verbatim>\<open>Error('boom')\<close>, under Python 3. The handler is called once and raises; the walk
  skips the success side and completes with the flag true and the \<^verbatim>\<open>exc_info\<close> of
  \<^verbatim>\<open>Error('boom')\<close>; and \<^verbatim>\<open>perform\<close> raises \<^verbatim>\<open>TypeError\<close>, not \<^verbatim>\<open>Error('boom')\<close>.
\<close>

theorem captured_fault_lost_under_Python3:
  "dispatch_loop 0 Py3 demo_env (callbacks (on_success (Effect (VInt 7)) (Some 1))) [(IntType, 2)] 0
     ((Some (Partial 2 (VInt 7)), None) # map step_of (callbacks (on_success (Effect (VInt 7)) (Some 1))))
     False (VDict [(IntType, 2)]) s0
   = Some (Completed True (VExcInfo (Error ''boom'' VNone)),
       \<lparr>world = 1, calls = [(2, [VInt 7, VDict [(IntType, 2)]], Inl (Error ''boom'' VNone))]\<rparr>)
 \<and> perform (Suc 0) Py3 demo_env (on_success (Effect (VInt 7)) (Some 1)) [(IntType, 2)] s0
   = Some (Inl TypeError,
       \<lparr>world = 1, calls = [(2, [VInt 7, VDict [(IntType, 2)]], Inl (Error ''boom'' VNone))]\<rparr>)
 \<and> perform (Suc 0) Py3 demo_env (on_success (Effect (VInt 7)) (Some 1)) [(IntType, 2)] s0
   \<noteq> Some (Inl (Error ''boom'' VNone),
       \<lparr>world = 1, calls = [(2, [VInt 7, VDict [(IntType, 2)]], Inl (Error ''boom'' VNone))]\<rparr>)"
proof -
  let ?h = "[(IntType, 2::nat)]"
  let ?e = "on_success (Effect (VInt 7)) (Some 1)"
  let ?t = "\<lparr>world = 1::nat,
             calls = [(2::nat, [VInt 7, VDict ?h], Inl (Error ''boom'' VNone))]\<rparr>"
  have e: "?e = Effect_obj (VInt 7) [(Some 1, None)]"
    by (simp add: on_success_def on_def with_callbacks_def Effect_def)
  have res: "resolve_handler ?h (intent ?e) = Some (Partial 2 (VInt 7))"
    unfolding e by (simp add: resolve_handler_def)
  have loop: "dispatch_loop 0 Py3 demo_env (callbacks ?e) ?h 0
      ((Some (Partial 2 (VInt 7)), None) # map step_of (callbacks ?e)) False (VDict ?h) s0
      = Some (Completed True (VExcInfo (Error ''boom'' VNone)), ?t)"
    unfolding e
    by (simp add: dispatch_loop.simps(2) dispatch_callback.simps maybe_chain.simps
          step_of_def invoke_def demo_env_def s0_def)
  have p: "perform (Suc 0) Py3 demo_env ?e ?h s0 = Some (Inl TypeError, ?t)"
    by (rule walk_error_Py3[OF res loop])
  have "perform (Suc 0) Py3 demo_env ?e ?h s0 \<noteq> Some (Inl (Error ''boom'' VNone), ?t)"
    unfolding p by simp
  with loop p show ?thesis by simp
qed

subsection \<open>Hand-over to a Deferred\<close>

lemma dispatch_loop_step_deferred:
  assumes sel: "(if er then ec else sc) = Some k"
      and step: "dispatch_callback n ver env k r s = Some ((er1, r1), s1)"
      and post: "maybe_chain n ver env r1 h s1 = Some (Inr (VDeferred d att), s2)"
  shows "dispatch_loop n ver env cbs h idx ((sc, ec) # steps) er r s =
         Some (Returned (VDeferred d (att @ map attach_of (drop idx cbs))), s2)"
  using assms by (cases er) (simp_all add: dispatch_loop.simps(2) chain_deferred_eq)

text \<open>
  Claim C5. Let the steps of a walk be \<open>A\<close>, then the step \<open>(sc, ec)\<close>, then \<open>B\<close>; let
  the walk run through \<open>A\<close> without handing over, and let the result of the next step, after
  \<^verbatim>\<open>_maybe_chain\<close>, be a Deferred that has not fired (to one that has fired Twisted
  runs what is attached at once, which is outside the model). Then \<^verbatim>\<open>perform\<close> returns that Deferred at once, in
  the state \<open>s3\<close> reached by this step: the walker calls nothing more. The steps not yet
  run, \<open>B\<close>, are exactly the continuation pairs from position \<open>length A\<close> on, and each of
  them is attached to the Deferred once, in order, after what was attached before: its
  success side in the success slot, an absent success side replaced by the identity, and
  its error side in the error slot.
\<close>

theorem remaining_pairs_attached_to_deferred:
  assumes res: "resolve_handler h (intent e) = Some c"
      and split: "(Some c, None) # map step_of (callbacks e) = A @ (sc, ec) # B"
      and before: "dispatch_loop n ver env (callbacks e) h 0 A False (VDict h) s
                     = Some (Completed er r, s1)"
      and sel: "(if er then ec else sc) = Some k"
      and step: "dispatch_callback n ver env k r s1 = Some ((er1, r1), s2)"
      and post: "maybe_chain n ver env r1 h s2 = Some (Inr (VDeferred (Unfired u) att), s3)"
  shows "perform (Suc n) ver env e h s
           = Some (Inr (VDeferred (Unfired u)
                          (att @ map attach_of (drop (length A) (callbacks e)))), s3)
       \<and> map step_of (drop (length A) (callbacks e)) = B"
proof -
  have "dispatch_loop n ver env (callbacks e) h 0 (A @ (sc, ec) # B) False (VDict h) s
          = dispatch_loop n ver env (callbacks e) h (0 + length A) ((sc, ec) # B) er r s1"
    by (simp add: dispatch_loop_append before)
  also have "\<dots> = Some (Returned (VDeferred (Unfired u)
          (att @ map attach_of (drop (0 + length A) (callbacks e)))), s3)"
    by (rule dispatch_loop_step_deferred[OF sel step post])
  finally have "dispatch_loop n ver env (callbacks e) h 0
          ((Some c, None) # map step_of (callbacks e)) False (VDict h) s
        = Some (Returned (VDeferred (Unfired u) (att @ map attach_of (drop (length A) (callbacks e)))), s3)"
    by (simp add: split)
  then have p: "perform (Suc n) ver env e h s
           = Some (Inr (VDeferred (Unfired u) (att @ map attach_of (drop (length A) (callbacks e)))), s3)"
    by (simp add: perform_Suc[OF res] dispatch_callback_chain.simps)
  have "drop (Suc (length A)) ((Some c, None) # map step_of (callbacks e))
          = drop (Suc (length A)) (A @ (sc, ec) # B)"
    by (simp only: split)
  then have "map step_of (drop (length A) (callbacks e)) = B"
    by (simp add: drop_map)
  with p show ?thesis by simp
qed

theorem remaining_pairs_attached_to_deferred_witness:
  "perform (Suc 0) Py3 deferred_env
     (Effect_obj (VInt 7) [(Some 1, None), (Some 4, Some 3), (None, Some 3), (Some 1, None)])
     [(IntType, 0)] s0
   = Some (Inr (VDeferred (Unfired 0)
                  ([AddCallback_maybe_chain [(IntType, 0)]]
                   @ map attach_of (drop (length [(Some (Partial 0 (VInt 7)), None),
                                                  (Some (Function 1), None)])
                       [(Some 1, None), (Some 4, Some 3), (None, Some 3), (Some 1, None)]))),
       \<lparr>world = 3,
        calls = [(0, [VInt 7, VDict [(IntType, 0)]], Inr (VInt 10)),
                 (1, [VInt 10], Inr (VInt 11)),
                 (4, [VInt 11], Inr (VDeferred (Unfired 0) []))]\<rparr>)
   \<and> map step_of (drop (length [(Some (Partial 0 (VInt 7)), None), (Some (Function 1), None)])
        [(Some 1, None), (Some 4, Some 3), (None, Some 3), (Some 1, None)])
     = [(None, Some (Function 3)), (Some (Function 1), None)]"
proof -
  let ?h = "[(IntType, 0::nat)]"
  let ?cbs = "[(Some 1, None), (Some 4, Some 3), (None, Some 3), (Some (1::nat), None :: fid option)]"
  let ?e = "Effect_obj (VInt 7) ?cbs"
  let ?A = "[(Some (Partial 0 (VInt 7)), None), (Some (Function 1), None)]"
  let ?t1 = "\<lparr>world = 2::nat, calls = [(0::nat, [VInt 7, VDict ?h], Inr (VInt 10)),
                 (1, [VInt 10], Inr (VInt 11))]\<rparr>"
  let ?t2 = "\<lparr>world = 3::nat, calls = [(0::nat, [VInt 7, VDict ?h], Inr (VInt 10)),
                 (1, [VInt 10], Inr (VInt 11)),
                 (4, [VInt 11], Inr (VDeferred (Unfired 0) []))]\<rparr>"
  have res: "resolve_handler ?h (intent ?e) = Some (Partial 0 (VInt 7))"
    by (simp add: resolve_handler_def)
  have split: "(Some (Partial 0 (VInt 7)), None) # map step_of (callbacks ?e)
      = ?A @ (Some (Function 4), Some (Function 3))
          # [(None, Some (Function 3)), (Some (Function 1), None)]"
    by (simp add: step_of_def)
  have before: "dispatch_loop 0 Py3 deferred_env (callbacks ?e) ?h 0 ?A False (VDict ?h) s0
      = Some (Completed False (VInt 11), ?t1)"
    by (simp add: dispatch_loop.simps(2) dispatch_callback.simps maybe_chain.simps
          invoke_def deferred_env_def demo_env_def s0_def)
  have sel: "(if False then Some (Function 3) else Some (Function 4)) = Some (Function 4)"
    by simp
  have step: "dispatch_callback 0 Py3 deferred_env (Function 4) (VInt 11) ?t1
      = Some ((False, VDeferred (Unfired 0) []), ?t2)"
    by (simp add: dispatch_callback.simps invoke_def deferred_env_def demo_env_def)
  have post: "maybe_chain 0 Py3 deferred_env (VDeferred (Unfired 0) []) ?h ?t2
      = Some (Inr (VDeferred (Unfired 0) ([] @ [AddCallback_maybe_chain ?h])), ?t2)"
    by (simp add: maybe_chain.simps)
  show ?thesis
    using remaining_pairs_attached_to_deferred[OF res split before sel step post]
    by simp
qed

subsection \<open>Nested effects\<close>







subsection \<open>The success path\<close>

lemma foldl_on:
  "foldl (\<lambda>e p. on e (fst p) (snd p)) e0 ps = Effect_obj (intent e0) (callbacks e0 @ ps)"
  by (induction ps arbitrary: e0) (simp_all add: on_def with_callbacks_def Effect_def)

lemma success_run_Cons_Some:
  assumes "success_run env (f # fs) v s = Some (out, s1)"
  obtains v1 t1 where "invoke env f [v] s = (Inr v1, t1)" and "plain v1"
    and "success_run env fs v1 t1 = Some (out, s1)"
  using assms by (auto split: prod.splits sum.splits if_splits)

lemma dispatch_loop_success_path:
  assumes "success_run env (success_sides ps) v s = Some (out, s1)"
  shows "dispatch_loop n ver env cbs h idx (map step_of ps) False v s
           = Some (Completed False out, s1)
       \<and> (\<exists>cs. calls s1 = calls s @ cs \<and> map fst cs = success_sides ps \<and> chained v cs out)"
  using assms
proof (induction ps arbitrary: idx v s)
  case Nil
  then show ?case by (simp add: success_sides_def map_filter_simps)
next
  case (Cons p ps)
  obtain sc ec where p: "p = (sc, ec)" by (cases p)
  show ?case
  proof (cases sc)
    case None
    with Cons.prems p have "success_run env (success_sides ps) v s = Some (out, s1)"
      by (simp add: success_sides_def map_filter_simps)
    from Cons.IH[OF this, of "Suc idx"] obtain cs where
      "dispatch_loop n ver env cbs h (Suc idx) (map step_of ps) False v s
         = Some (Completed False out, s1)"
      "calls s1 = calls s @ cs" "map fst cs = success_sides ps" "chained v cs out"
      by blast
    moreover have "step_of p = (None, map_option Function ec)"
      using None p by (simp add: step_of_def)
    ultimately show ?thesis
      using None p
      by (intro conjI exI[of _ cs])
         (simp_all add: dispatch_loop_skip success_sides_def map_filter_simps)
  next
    case (Some f)
    with Cons.prems p have "success_run env (f # success_sides ps) v s = Some (out, s1)"
      by (simp add: success_sides_def map_filter_simps)
    then obtain v1 t1 where
      inv: "invoke env f [v] s = (Inr v1, t1)" and pl: "plain v1"
      and rest: "success_run env (success_sides ps) v1 t1 = Some (out, s1)"
      by (rule success_run_Cons_Some)
    have log: "calls t1 = calls s @ [(f, [v], Inr v1)]"
      by (rule invoke_calls[OF inv])
    have sel: "(if False then map_option Function ec else Some (Function f)) = Some (Function f)"
      by simp
    have cl: "call n ver env (Function f) v s = Some (Inr v1, t1)"
      using inv by simp
    have sp: "step_of p = (Some (Function f), map_option Function ec)"
      using Some p by (simp add: step_of_def)
    have step: "dispatch_loop n ver env cbs h idx (map step_of (p # ps)) False v s
        = dispatch_loop n ver env cbs h (Suc idx) (map step_of ps) False v1 t1"
      using dispatch_loop_step_plain[OF sel cl pl] by (simp add: sp)
    from Cons.IH[OF rest, of "Suc idx"] obtain cs where
      "dispatch_loop n ver env cbs h (Suc idx) (map step_of ps) False v1 t1
         = Some (Completed False out, s1)"
      "calls s1 = calls t1 @ cs" "map fst cs = success_sides ps" "chained v1 cs out"
      by blast
    with step log p Some show ?thesis
      by (intro conjI exI[of _ "(f, [v], Inr v1) # cs"])
         (simp_all add: success_sides_def map_filter_simps)
  qed
qed

text \<open>
  Claim C1. Take the effect built from \<^verbatim>\<open>Effect(i)\<close> by attaching the pairs \<open>ps\<close> with
  repeated \<^verbatim>\<open>on()\<close> calls. Let the resolved handler \<open>f0\<close>, called with the intent and
  the table in the state \<open>s\<close>, return \<open>v0\<close>, and let the success sides of \<open>ps\<close> that are
  present, called one after the other from \<open>v0\<close>, each return; nothing is asked of these
  functions at other arguments. (The values returned are neither effects nor Deferreds;
  those are the subject of claims C4 and C5.) Then \<^verbatim>\<open>perform\<close> returns the value the last
  of these calls returned, in the state after it, and the calls it made are: the handler, then
  every success side that is present, exactly once and in the order of attachment, each with
  the value returned by the call before it as its only argument. Nothing else was called, so
  no error side was invoked.
\<close>

theorem success_sides_run_in_attachment_order:
  assumes res: "resolve_handler h i = Some c"
      and c: "c = Partial f0 i \<or> c = Method f0 i"
      and f0: "invoke env f0 [i, VDict h] s = (Inr v0, t0)"
      and pl: "plain v0"
      and fs: "success_run env (success_sides ps) v0 t0 = Some (out, s1)"
  shows "perform (Suc n) ver env (foldl (\<lambda>e p. on e (fst p) (snd p)) (Effect i) ps) h s
           = Some (Inr out, s1)
       \<and> (\<exists>cs. calls s1 = calls s @ (f0, [i, VDict h], Inr v0) # cs
              \<and> map fst cs = success_sides ps
              \<and> chained v0 cs out)"
proof -
  have e: "foldl (\<lambda>e p. on e (fst p) (snd p)) (Effect i) ps = Effect_obj i ps"
    by (simp add: foldl_on Effect_def)
  have log: "calls t0 = calls s @ [(f0, [i, VDict h], Inr v0)]"
    by (rule invoke_calls[OF f0])
  have sel: "(if False then None else Some c) = Some c" by simp
  have cl: "call n ver env c (VDict h) s = Some (Inr v0, t0)"
    using c f0 by auto
  have step: "dispatch_loop n ver env ps h 0 ((Some c, None) # map step_of ps) False (VDict h) s
      = dispatch_loop n ver env ps h (Suc 0) (map step_of ps) False v0 t0"
    by (rule dispatch_loop_step_plain[OF sel cl pl])
  from dispatch_loop_success_path[OF fs, where n = n and ver = ver and cbs = ps and h = h
      and idx = "Suc 0"] obtain cs where
    loop: "dispatch_loop n ver env ps h (Suc 0) (map step_of ps) False v0 t0
         = Some (Completed False out, s1)"
    and rest: "calls s1 = calls t0 @ cs" "map fst cs = success_sides ps" "chained v0 cs out"
    by blast
  have "perform (Suc n) ver env (Effect_obj i ps) h s = Some (Inr out, s1)"
    using res step loop by (simp add: perform.simps dispatch_callback_chain.simps)
  with rest log e show ?thesis
    by (intro conjI exI[of _ cs]) simp_all
qed

theorem success_sides_run_in_attachment_order_witness:
  "perform (Suc 0) Py3 arity_env
     (foldl (\<lambda>e p. on e (fst p) (snd p)) (Effect (VInt 7))
        [(Some 1, Some 3), (None, Some 3), (Some 1, None)])
     [(IntType, 0)] s0
   = Some (Inr (VInt 12),
       \<lparr>world = 3,
        calls = [(0, [VInt 7, VDict [(IntType, 0)]], Inr (VInt 10)),
                 (1, [VInt 10], Inr (VInt 11)),
                 (1, [VInt 11], Inr (VInt 12))]\<rparr>)
 \<and> (\<exists>cs. calls \<lparr>world = 3::nat,
                  calls = [(0, [VInt 7, VDict [(IntType, 0)]], Inr (VInt 10)),
                           (1, [VInt 10], Inr (VInt 11)),
                           (1, [VInt 11], Inr (VInt 12))]\<rparr>
          = calls s0 @ (0, [VInt 7, VDict [(IntType, 0)]], Inr (VInt 10)) # cs
        \<and> map fst cs = success_sides [(Some 1, Some 3), (None, Some 3), (Some 1, None)]
        \<and> chained (VInt 10) cs (VInt 12))"
proof -
  let ?h = "[(IntType, 0::nat)]"
  let ?ps = "[(Some 1, Some 3), (None, Some 3), (Some (1::nat), None :: fid option)]"
  let ?t0 = "\<lparr>world = 1::nat, calls = [(0::nat, [VInt 7, VDict ?h], Inr (VInt 10))]\<rparr>"
  let ?s1 = "\<lparr>world = 3::nat,
              calls = [(0::nat, [VInt 7, VDict ?h], Inr (VInt 10)),
                       (1, [VInt 10], Inr (VInt 11)),
                       (1, [VInt 11], Inr (VInt 12))]\<rparr>"
  have res: "resolve_handler ?h (VInt 7) = Some (Partial 0 (VInt 7))"
    by (simp add: resolve_handler_def)
  have c: "Partial 0 (VInt 7) = Partial 0 (VInt 7) \<or> Partial 0 (VInt 7) = Method 0 (VInt 7)"
    by simp
  have f0: "invoke arity_env 0 [VInt 7, VDict ?h] s0 = (Inr (VInt 10), ?t0)"
    by (simp add: invoke_def arity_env_def s0_def)
  have pl: "plain (VInt 10)" by simp
  have fs: "success_run arity_env (success_sides ?ps) (VInt 10) ?t0 = Some (VInt 12, ?s1)"
    by (simp add: success_sides_def map_filter_simps invoke_def arity_env_def)
  show ?thesis
    by (rule success_sides_run_in_attachment_order[OF res c f0 pl fs])
qed

subsection \<open>The combinators\<close>

lemma on_st_new_effect:
  assumes wf: "wf_store st"
      and e: "effect_at st a = Some e"
  shows "\<exists>b st1. on_st a sc ec st = Some (b, st1) \<and> b \<notin> dom (effect_objs st) \<and> wf_store st1
           \<and> effect_at st1 b = Some (on e sc ec)
           \<and> (\<forall>a1\<in>dom (effect_objs st). effect_at st1 a1 = effect_at st a1)"
proof -
  from e obtain i l cbs where
    a: "effect_objs st a = Some (i, l)" and l: "list_objs st l = Some cbs"
    and ev: "e = Effect_obj i cbs"
    by (auto simp: effect_at_def split: option.splits)
  let ?n = "next_ref st"
  let ?st1 = "\<lparr>effect_objs = (effect_objs st)(Suc (Suc ?n) \<mapsto> (i, ?n)),
               list_objs = (list_objs st)(?n \<mapsto> cbs @ [(sc, ec)], Suc ?n \<mapsto> []),
               next_ref = Suc (Suc (Suc ?n))\<rparr>"
  have run: "on_st a sc ec st = Some (Suc (Suc ?n), ?st1)"
    by (simp add: on_st_def a l new_list_def with_callbacks_st_def Effect_init_def)
  have fresh: "Suc (Suc ?n) \<notin> dom (effect_objs st)"
    using wf by (force simp: wf_store_def)
  have wf1: "wf_store ?st1"
    using wf by (auto simp: wf_store_def less_Suc_eq split: if_splits)
  have new: "effect_at ?st1 (Suc (Suc ?n)) = Some (on e sc ec)"
    by (simp add: effect_at_def ev on_def with_callbacks_def Effect_def)
  have old: "\<forall>a1\<in>dom (effect_objs st). effect_at ?st1 a1 = effect_at st a1"
  proof
    fix a1 assume "a1 \<in> dom (effect_objs st)"
    then obtain j k where a1: "effect_objs st a1 = Some (j, k)" by auto
    with wf have "a1 < ?n" and "k < ?n" by (auto simp: wf_store_def)
    with a1 show "effect_at ?st1 a1 = effect_at st a1"
      by (simp add: effect_at_def)
  qed
  from run fresh wf1 new old show ?thesis by blast
qed

lemma perform_wrapped_one_call:
  assumes "map_of h (type_of i) = Some f0"
      and "invoke env f0 [i, VDict h] s = (Inr v, t)"
      and "plain v"
  shows "perform (Suc n) ver env (Effect i) h s = Some (Inr v, t)"
proof -
  have sel: "(if False then None else Some (Partial f0 i)) = Some (Partial f0 i)" by simp
  have cl: "call n ver env (Partial f0 i) (VDict h) s = Some (Inr v, t)"
    using assms(2) by simp
  have "dispatch_loop n ver env [] h 0 ((Some (Partial f0 i), None) # map step_of [])
          False (VDict h) s = Some (Completed False v, t)"
    using dispatch_loop_step_plain[OF sel cl assms(3), of "[]" h 0 "[]"] by simp
  with assms(1) show ?thesis
    by (simp add: perform.simps dispatch_callback_chain.simps resolve_handler_def Effect_def)
qed

text \<open>
  Claim C8. \<^verbatim>\<open>on_success(f)\<close> is \<^verbatim>\<open>on(f, None)\<close>, \<^verbatim>\<open>on_error(f)\<close> is
  \<^verbatim>\<open>on(None, f)\<close> and \<^verbatim>\<open>after(f)\<close> is \<^verbatim>\<open>on(f, f)\<close>. The effect \<^verbatim>\<open>on\<close> returns
  has the intent of the original and its pairs plus the new pair at the end. In the store
  of objects, \<^verbatim>\<open>on\<close> on the \<^verbatim>\<open>Effect\<close> object at \<open>a\<close> returns a reference \<open>b\<close> that
  was not in use before (a brand-new object) holding that effect, and every \<^verbatim>\<open>Effect\<close>
  object that existed before, the original among them, has the value it had. So when the
  original was \<^verbatim>\<open>Effect(i)\<close>, performing it after the call runs no continuation: with a
  handler that returns a plain value, the handler's call is the only call.
\<close>

theorem combinators_return_new_effects:
  "on_success e f = on e f None
 \<and> on_error e f = on e None f
 \<and> after e f = on e f f
 \<and> intent (on e sc ec) = intent e
 \<and> callbacks (on e sc ec) = callbacks e @ [(sc, ec)]
 \<and> (wf_store st \<and> effect_at st a = Some e
      \<longrightarrow> (\<exists>b st1. on_st a sc ec st = Some (b, st1) \<and> b \<notin> dom (effect_objs st)
             \<and> wf_store st1
             \<and> effect_at st1 b = Some (on e sc ec)
             \<and> (\<forall>a1\<in>dom (effect_objs st). effect_at st1 a1 = effect_at st a1)))
 \<and> (wf_store st \<and> effect_at st a = Some (Effect i) \<and> on_st a sc ec st = Some (b, st1)
      \<and> map_of h (type_of i) = Some f0 \<and> invoke env f0 [i, VDict h] s = (Inr v, t) \<and> plain v
      \<longrightarrow> (\<exists>e1. effect_at st1 a = Some e1
             \<and> perform (Suc n) ver env e1 h s = Some (Inr v, t)
             \<and> calls t = calls s @ [(f0, [i, VDict h], Inr v)]))"
proof (intro conjI impI)
  show "on_success e f = on e f None" by (simp add: on_success_def)
  show "on_error e f = on e None f" by (simp add: on_error_def)
  show "after e f = on e f f" by (simp add: after_def)
  show "intent (on e sc ec) = intent e"
    by (simp add: on_def with_callbacks_def Effect_def)
  show "callbacks (on e sc ec) = callbacks e @ [(sc, ec)]"
    by (simp add: on_def with_callbacks_def Effect_def)
next
  assume "wf_store st \<and> effect_at st a = Some e"
  then show "\<exists>b st1. on_st a sc ec st = Some (b, st1) \<and> b \<notin> dom (effect_objs st)
             \<and> wf_store st1
             \<and> effect_at st1 b = Some (on e sc ec)
             \<and> (\<forall>a1\<in>dom (effect_objs st). effect_at st1 a1 = effect_at st a1)"
    using on_st_new_effect by blast
next
  assume h: "wf_store st \<and> effect_at st a = Some (Effect i) \<and> on_st a sc ec st = Some (b, st1)
      \<and> map_of h (type_of i) = Some f0 \<and> invoke env f0 [i, VDict h] s = (Inr v, t) \<and> plain v"
  then have wf: "wf_store st" and ea: "effect_at st a = Some (Effect i)"
    and run: "on_st a sc ec st = Some (b, st1)"
    and m: "map_of h (type_of i) = Some f0"
    and inv: "invoke env f0 [i, VDict h] s = (Inr v, t)" and pl: "plain v"
    by simp_all
  from on_st_new_effect[OF wf ea, of sc ec] run
  have keep: "\<forall>a1\<in>dom (effect_objs st). effect_at st1 a1 = effect_at st a1"
    by auto
  from ea have "a \<in> dom (effect_objs st)"
    by (auto simp: effect_at_def split: option.splits)
  with keep ea have "effect_at st1 a = Some (Effect i)" by simp
  moreover have "perform (Suc n) ver env (Effect i) h s = Some (Inr v, t)"
    by (rule perform_wrapped_one_call[OF m inv pl])
  moreover have "calls t = calls s @ [(f0, [i, VDict h], Inr v)]"
    by (rule invoke_calls[OF inv])
  ultimately show "\<exists>e1. effect_at st1 a = Some e1
             \<and> perform (Suc n) ver env e1 h s = Some (Inr v, t)
             \<and> calls t = calls s @ [(f0, [i, VDict h], Inr v)]"
    by blast
qed

theorem combinators_return_new_effects_witness:
  "on_success (Effect (VInt 7)) (Some 1) = on (Effect (VInt 7)) (Some 1) None
 \<and> on_error (Effect (VInt 7)) (Some 1) = on (Effect (VInt 7)) None (Some 1)
 \<and> after (Effect (VInt 7)) (Some 1) = on (Effect (VInt 7)) (Some 1) (Some 1)
 \<and> callbacks (on (Effect (VInt 7)) (Some 1) None) = callbacks (Effect (VInt 7)) @ [(Some 1, None)]
 \<and> (\<exists>b st1. on_st 1 (Some 1) None (snd (Effect_init (VInt 7) empty_store)) = Some (b, st1)
       \<and> b \<notin> dom (effect_objs (snd (Effect_init (VInt 7) empty_store)))
       \<and> effect_at st1 b = Some (on (Effect (VInt 7)) (Some 1) None))
 \<and> (\<exists>e1. effect_at
            \<lparr>effect_objs = [1 \<mapsto> (VInt 7, 0), 4 \<mapsto> (VInt 7, 2)],
             list_objs = [0 \<mapsto> [], 2 \<mapsto> [(Some 1, None)], 3 \<mapsto> []],
             next_ref = 5\<rparr> 1 = Some e1
       \<and> perform (Suc 0) Py2 demo_env e1 [(IntType, 0)] s0
           = Some (Inr (VInt 10),
               \<lparr>world = 1, calls = [(0, [VInt 7, VDict [(IntType, 0)]], Inr (VInt 10))]\<rparr>)
       \<and> calls \<lparr>world = 1::nat, calls = [(0, [VInt 7, VDict [(IntType, 0)]], Inr (VInt 10))]\<rparr>
           = calls s0 @ [(0, [VInt 7, VDict [(IntType, 0)]], Inr (VInt 10))])"
proof -
  let ?st = "snd (Effect_init (VInt 7) empty_store)"
  let ?st1 = "\<lparr>effect_objs = [1 \<mapsto> (VInt 7, 0), 4 \<mapsto> (VInt 7, 2)],
             list_objs = [0 \<mapsto> [], 2 \<mapsto> [(Some 1, None)], 3 \<mapsto> []],
             next_ref = 5::nat\<rparr>"
  let ?t = "\<lparr>world = 1::nat, calls = [(0::nat, [VInt 7, VDict [(IntType, 0::nat)]], Inr (VInt 10))]\<rparr>"
  have st: "?st = \<lparr>effect_objs = [1 \<mapsto> (VInt 7, 0)], list_objs = [0 \<mapsto> []], next_ref = 2\<rparr>"
    by (simp add: Effect_init_def new_list_def empty_store_def)
  have wf: "wf_store ?st"
    unfolding st by (auto simp: wf_store_def split: if_splits)
  have ea: "effect_at ?st 1 = Some (Effect (VInt 7))"
    unfolding st by (simp add: effect_at_def Effect_def)
  have run: "on_st 1 (Some 1) None ?st = Some (4, ?st1)"
    unfolding st
    by (simp add: on_st_def new_list_def with_callbacks_st_def Effect_init_def fun_upd_twist)
  have inv: "invoke demo_env 0 [VInt 7, VDict [(IntType, 0)]] s0 = (Inr (VInt 10), ?t)"
    by (simp add: invoke_def demo_env_def s0_def)
  have pre: "wf_store ?st \<and> effect_at ?st 1 = Some (Effect (VInt 7))
      \<and> on_st 1 (Some 1) None ?st = Some (4, ?st1)
      \<and> map_of [(IntType, 0::nat)] (type_of (VInt 7)) = Some 0
      \<and> invoke demo_env 0 [VInt 7, VDict [(IntType, 0)]] s0 = (Inr (VInt 10), ?t)
      \<and> plain (VInt 10)"
    using wf ea run inv by simp
  note T = combinators_return_new_effects[where e = "Effect (VInt 7)" and f = "Some 1"
      and sc = "Some 1" and ec = None and st = ?st and a = 1 and i = "VInt 7" and b = 4
      and ?st1.0 = ?st1 and h = "[(IntType, 0)]" and ?f0.0 = 0 and env = demo_env and s = s0
      and v = "VInt 10" and t = ?t and n = 0 and ver = Py2]
  have c1: "on_success (Effect (VInt 7)) (Some 1) = on (Effect (VInt 7)) (Some 1) None"
    by (rule T[THEN conjunct1])
  have c2: "on_error (Effect (VInt 7)) (Some 1) = on (Effect (VInt 7)) None (Some 1)"
    by (rule T[THEN conjunct2, THEN conjunct1])
  have c3: "after (Effect (VInt 7)) (Some 1) = on (Effect (VInt 7)) (Some 1) (Some 1)"
    by (rule T[THEN conjunct2, THEN conjunct2, THEN conjunct1])
  have c5: "callbacks (on (Effect (VInt 7)) (Some 1) None)
      = callbacks (Effect (VInt 7)) @ [(Some 1, None)]"
    by (rule T[THEN conjunct2, THEN conjunct2, THEN conjunct2, THEN conjunct2, THEN conjunct1])
  have c6: "\<exists>b st1. on_st 1 (Some 1) None ?st = Some (b, st1)
       \<and> b \<notin> dom (effect_objs ?st)
       \<and> effect_at st1 b = Some (on (Effect (VInt 7)) (Some 1) None)"
    using T[THEN conjunct2, THEN conjunct2, THEN conjunct2, THEN conjunct2, THEN conjunct2,
        THEN conjunct1, THEN mp, OF conjI[OF wf ea]]
    by blast
  have c7: "\<exists>e1. effect_at ?st1 1 = Some e1
       \<and> perform (Suc 0) Py2 demo_env e1 [(IntType, 0)] s0 = Some (Inr (VInt 10), ?t)
       \<and> calls ?t = calls s0 @ [(0, [VInt 7, VDict [(IntType, 0)]], Inr (VInt 10))]"
    by (rule T[THEN conjunct2, THEN conjunct2, THEN conjunct2, THEN conjunct2, THEN conjunct2,
        THEN conjunct2, THEN mp, OF pre])
  show ?thesis
    by (rule conjI[OF c1 conjI[OF c2 conjI[OF c3 conjI[OF c5 conjI[OF c6 c7]]]]])
qed

subsection \<open>Parallel effects\<close>

lemma perform_children_nth:
  "perform_children n ver env es h s = Some (ds, s1) \<Longrightarrow>
   \<exists>ts. length ts = Suc (length es) \<and> ts ! 0 = s \<and> ts ! length es = s1
      \<and> length ds = length es
      \<and> (\<forall>k<length es. \<exists>r. perform n ver env (es ! k) h (ts ! k) = Some (r, ts ! Suc k)
             \<and> ds ! k = maybeDeferred r)"
proof (induction es arbitrary: s ds)
  case Nil
  then show ?case by (intro exI[of _ "[s]"]) simp
next
  case (Cons e es)
  from Cons.prems obtain r t ds1 where
    p: "perform n ver env e h s = Some (r, t)"
    and c: "perform_children n ver env es h t = Some (ds1, s1)"
    and ds: "ds = maybeDeferred r # ds1"
    by (auto split: option.splits prod.splits)
  from Cons.IH[OF c] obtain ts where
    len: "length ts = Suc (length es)" and first: "ts ! 0 = t" and last: "ts ! length es = s1"
    and lds: "length ds1 = length es"
    and nth: "\<forall>k<length es. \<exists>r. perform n ver env (es ! k) h (ts ! k) = Some (r, ts ! Suc k)
          \<and> ds1 ! k = maybeDeferred r"
    by blast
  have "\<exists>r. perform n ver env ((e # es) ! k) h ((s # ts) ! k) = Some (r, (s # ts) ! Suc k)
          \<and> ds ! k = maybeDeferred r"
    if "k < length (e # es)" for k
  proof (cases k)
    case 0
    with p ds first show ?thesis by auto
  next
    case (Suc j)
    with that have "j < length es" by simp
    with nth Suc ds show ?thesis by simp
  qed
  with len last lds ds show ?case
    by (intro exI[of _ "s # ts"]) simp
qed

lemma perform_parallel:
  assumes "map_of h ParallelEffectsType = None"
      and "perform_children n ver env es h s = Some (ds, s1)"
  shows "perform (Suc n) ver env (parallel es) h s
           = Some (Inr (VDeferred (GatherResults ds) [AddCallback_maybe_chain h]), s1)"
  using assms
  by (simp add: parallel_def Effect_def perform.simps resolve_handler_def
        dispatch_callback_chain.simps dispatch_loop.simps(2) dispatch_callback.simps
        maybe_chain.simps)

lemma gatherResults_value_in_order:
  assumes "length vs = length ds"
      and "\<forall>k<length ds. settled (ds ! k) = Inr (vs ! k)"
  shows "gatherResults_value settled ds = Some (VList vs)"
proof -
  have all: "list_all (\<lambda>d. case settled d of Inr _ \<Rightarrow> True | Inl _ \<Rightarrow> False) ds"
    using assms(2) by (auto simp: list_all_length)
  have "map (\<lambda>d. case settled d of Inr v \<Rightarrow> v | Inl _ \<Rightarrow> VNone) ds = vs"
    using assms by (intro nth_equalityI) simp_all
  with all show ?thesis by (simp add: gatherResults_value_def)
qed

text \<open>
  Claim C9. \<^verbatim>\<open>parallel(effects)\<close> is an \<^verbatim>\<open>Effect\<close> wrapping
  \<^verbatim>\<open>ParallelEffects(effects)\<close> with no continuation pairs. Performed against a handler
  table without an entry for \<^verbatim>\<open>ParallelEffects\<close> itself (such an entry would take
  precedence), it performs every child against that same table, in the order of the
  sequence (the states \<open>ts\<close> lead from the state of the entry to the final one, child
  \<open>k\<close> starting where child \<open>k - 1\<close> ended), and returns the Deferred that gathers one
  Deferred per child, in that order: the \<open>k\<close>-th is \<^verbatim>\<open>maybeDeferred\<close> of what the
  perform of the \<open>k\<close>-th child did. By the contract
  of \<^verbatim>\<open>gatherResults\<close>, whatever values \<open>vs\<close> the children's Deferreds come to have in
  the end, and in whatever order in time, the gathered Deferred fires with the list \<open>vs\<close>,
  which is in the order of the input; the callback \<^verbatim>\<open>_maybe_chain\<close> attached to it leaves
  a list as it is.
\<close>

theorem parallel_results_in_input_order:
  assumes "map_of h ParallelEffectsType = None"
      and "perform_children n ver env es h s = Some (ds, s1)"
  shows "parallel es = Effect_obj (VParallelEffects es) []
       \<and> perform (Suc n) ver env (parallel es) h s
           = Some (Inr (VDeferred (GatherResults ds) [AddCallback_maybe_chain h]), s1)
       \<and> length ds = length es
       \<and> (\<exists>ts. length ts = Suc (length es) \<and> ts ! 0 = s \<and> ts ! length es = s1
              \<and> (\<forall>k<length es. \<exists>r. perform n ver env (es ! k) h (ts ! k)
                                         = Some (r, ts ! Suc k)
                     \<and> ds ! k = maybeDeferred r))
       \<and> (length vs = length ds \<and> (\<forall>k<length ds. settled (ds ! k) = Inr (vs ! k))
            \<longrightarrow> gatherResults_value settled ds = Some (VList vs)
                \<and> maybe_chain m ver env (VList vs) h t0 = Some (Inr (VList vs), t0))"
proof (intro conjI impI)
  show "parallel es = Effect_obj (VParallelEffects es) []"
    by (simp add: parallel_def Effect_def)
  show "perform (Suc n) ver env (parallel es) h s
           = Some (Inr (VDeferred (GatherResults ds) [AddCallback_maybe_chain h]), s1)"
    by (rule perform_parallel[OF assms])
  show "length ds = length es"
    using perform_children_nth[OF assms(2)] by blast
  show "\<exists>ts. length ts = Suc (length es) \<and> ts ! 0 = s \<and> ts ! length es = s1
              \<and> (\<forall>k<length es. \<exists>r. perform n ver env (es ! k) h (ts ! k)
                                         = Some (r, ts ! Suc k)
                     \<and> ds ! k = maybeDeferred r)"
    using perform_children_nth[OF assms(2)] by blast
next
  assume a: "length vs = length ds \<and> (\<forall>k<length ds. settled (ds ! k) = Inr (vs ! k))"
  show "gatherResults_value settled ds = Some (VList vs)"
    by (rule gatherResults_value_in_order[OF conjunct1[OF a] conjunct2[OF a]])
  show "maybe_chain m ver env (VList vs) h t0 = Some (Inr (VList vs), t0)"
    by (simp add: maybe_chain.simps)
qed

theorem parallel_results_in_input_order_witness:
  "perform (Suc (Suc 0)) Py2 const_env
     (parallel [Effect (VInstance ''A'' None []), Effect (VInstance ''B'' None []),
                Effect (VInstance ''C'' None [])])
     [(ClassType ''A'', 1), (ClassType ''B'', 2), (ClassType ''C'', 3)] s0
   = Some (Inr (VDeferred
                 (GatherResults [VDeferred (Succeed (VInt 1)) [], VDeferred (Succeed (VInt 2)) [],
                                 VDeferred (Succeed (VInt 3)) []])
                 [AddCallback_maybe_chain
                    [(ClassType ''A'', 1), (ClassType ''B'', 2), (ClassType ''C'', 3)]]),
       \<lparr>world = 3,
        calls = [(1, [VInstance ''A'' None [],
                      VDict [(ClassType ''A'', 1), (ClassType ''B'', 2), (ClassType ''C'', 3)]],
                    Inr (VInt 1)),
                 (2, [VInstance ''B'' None [],
                      VDict [(ClassType ''A'', 1), (ClassType ''B'', 2), (ClassType ''C'', 3)]],
                    Inr (VInt 2)),
                 (3, [VInstance ''C'' None [],
                      VDict [(ClassType ''A'', 1), (ClassType ''B'', 2), (ClassType ''C'', 3)]],
                    Inr (VInt 3))]\<rparr>)
 \<and> gatherResults_value settled_now
     [VDeferred (Succeed (VInt 1)) [], VDeferred (Succeed (VInt 2)) [],
      VDeferred (Succeed (VInt 3)) []]
   = Some (VList [VInt 1, VInt 2, VInt 3])"
proof -
  let ?h = "[(ClassType ''A'', 1::nat), (ClassType ''B'', 2), (ClassType ''C'', 3)]"
  let ?es = "[Effect (VInstance ''A'' None []), Effect (VInstance ''B'' None []),
                Effect (VInstance ''C'' None [])]"
  let ?ds = "[VDeferred (Succeed (VInt 1)) [], VDeferred (Succeed (VInt 2)) [],
      VDeferred (Succeed (VInt 3)) []]"
  let ?s1 = "\<lparr>world = 3::nat,
        calls = [(1::nat, [VInstance ''A'' None [], VDict ?h], Inr (VInt 1)),
                 (2, [VInstance ''B'' None [], VDict ?h], Inr (VInt 2)),
                 (3, [VInstance ''C'' None [], VDict ?h], Inr (VInt 3))]\<rparr>"
  have a: "map_of ?h ParallelEffectsType = None" by simp
  have b: "perform_children (Suc 0) Py2 const_env ?es ?h s0 = Some (?ds, ?s1)"
    by (simp add: perform.simps dispatch_callback_chain.simps dispatch_callback.simps
          dispatch_loop.simps(2) maybe_chain.simps resolve_handler_def Effect_def invoke_def
          const_env_def s0_def)
  have c: "length [VInt 1, VInt 2, VInt 3] = length ?ds
      \<and> (\<forall>k<length ?ds. settled_now (?ds ! k) = Inr ([VInt 1, VInt 2, VInt 3] ! k))"
    by (simp add: less_Suc_eq all_conj_distrib)
  note T = parallel_results_in_input_order[OF a b, where vs = "[VInt 1, VInt 2, VInt 3]"
      and settled = settled_now and m = 0 and ?t0.0 = s0]
  have A: "perform (Suc (Suc 0)) Py2 const_env (parallel ?es) ?h s0
      = Some (Inr (VDeferred (GatherResults ?ds) [AddCallback_maybe_chain ?h]), ?s1)"
    by (rule T[THEN conjunct2, THEN conjunct1])
  have B: "gatherResults_value settled_now ?ds = Some (VList [VInt 1, VInt 2, VInt 3])"
    by (rule T[THEN conjunct2, THEN conjunct2, THEN conjunct2, THEN conjunct2, THEN mp,
        OF c, THEN conjunct1])
  show ?thesis
    by (rule conjI[OF A B])
qed

end
